theory Spec2Isabelle
  imports Main
begin

section \<open>Tiles\<close>

text \<open>
  The symbols of \<^verbatim>\<open>sdk_tile\<close> that \<^verbatim>\<open>sdk_group.py\<close> and \<^verbatim>\<open>sdk_solver.py\<close> use.
  A tile value is a one-character Python string: \<^verbatim>\<open>'.'\<close> for an unknown cell,
  \<^verbatim>\<open>'1'\<close> .. \<^verbatim>\<open>'9'\<close> for a digit.
\<close>

definition UNKNOWN :: char where
  "UNKNOWN = CHR ''.''"

definition CHOICES :: "char list" where
  "CHOICES = ''123456789''"

text \<open>
  A tile carries its value and its set of remaining candidates. Its position on the
  board is its index in the board's row-major tile storage.
\<close>

record tile =
  tile_value :: char
  candidates :: "char set"

text \<open>
  Modelled from the spec: \<^verbatim>\<open>Tile.set_value\<close>, \<^verbatim>\<open>Tile.eliminate\<close> and
  \<^verbatim>\<open>Tile.could_be\<close> of \<^verbatim>\<open>sdk_tile.py\<close>.
  \<^verbatim>\<open>set_value(v)\<close> assigns the value and collapses the candidates to \<open>{v}\<close>;
  \<^verbatim>\<open>eliminate(used)\<close> removes the used values from the candidates of an UNKNOWN tile
  and reports whether the set shrank, and does nothing on an assigned tile;
  \<^verbatim>\<open>could_be(v)\<close> is membership in the candidates.
\<close>

definition set_value :: "char \<Rightarrow> tile \<Rightarrow> tile" where
  "set_value v t = t\<lparr>tile_value := v, candidates := {v}\<rparr>"

definition eliminate :: "char set \<Rightarrow> tile \<Rightarrow> bool \<times> tile" where
  "eliminate used t =
     (if tile_value t = UNKNOWN
      then (candidates t - used \<noteq> candidates t, t\<lparr>candidates := candidates t - used\<rparr>)
      else (False, t))"

definition could_be :: "char \<Rightarrow> tile \<Rightarrow> bool" where
  "could_be v t = (v \<in> candidates t)"

section \<open>Groups\<close>

text \<open>
  A group is a title and a list of (references to) tiles. The methods of \<^verbatim>\<open>Group\<close>
  read and update the tiles of the group, so each method takes the list of the group's
  tiles and returns the updated list next to its result. \<^verbatim>\<open>Group.is_complete\<close> and
  \<^verbatim>\<open>Group.is_consistent\<close> carry the class name, since \<^verbatim>\<open>Board\<close> has methods of the
  same names.
\<close>

definition group_is_complete :: "tile list \<Rightarrow> bool" where
  "group_is_complete ts = list_all (\<lambda>t. tile_value t \<noteq> UNKNOWN) ts"

text \<open>
  The loop of \<^verbatim>\<open>Group.is_consistent\<close>, with its two accumulators \<^verbatim>\<open>can_place\<close> and
  \<^verbatim>\<open>used\<close>; the check after the loop compares \<^verbatim>\<open>can_place\<close> with the set of all
  choices.
\<close>

fun consistent_loop :: "tile list \<Rightarrow> char set \<Rightarrow> char set \<Rightarrow> bool" where
  "consistent_loop [] can_place used = (can_place = set CHOICES)"
| "consistent_loop (t # ts) can_place used =
     (if candidates t = {} then False
      else if tile_value t \<in> used then False
      else if tile_value t \<noteq> UNKNOWN
        then consistent_loop ts (can_place \<union> candidates t) (insert (tile_value t) used)
        else consistent_loop ts (can_place \<union> candidates t) used)"

definition group_is_consistent :: "tile list \<Rightarrow> bool" where
  "group_is_consistent ts = consistent_loop ts {} {}"

text \<open>
  \<^verbatim>\<open>Group.__str__\<close> and \<^verbatim>\<open>Group.duplicates\<close>. The loop of \<^verbatim>\<open>duplicates\<close> tests
  membership in \<^verbatim>\<open>used\<close> and appends a report; it has no statement that adds to
  \<^verbatim>\<open>used\<close>.
\<close>

definition group_str :: "string \<Rightarrow> tile list \<Rightarrow> string" where
  "group_str title ts = title @ '' '' @ map tile_value ts"

fun duplicates_loop ::
  "string \<Rightarrow> tile list \<Rightarrow> tile list \<Rightarrow> char set \<Rightarrow> string list \<Rightarrow> string list" where
  "duplicates_loop title all_tiles [] used reports = reports"
| "duplicates_loop title all_tiles (t # ts) used reports =
     (if tile_value t = UNKNOWN then duplicates_loop title all_tiles ts used reports
      else if tile_value t \<in> used
        then duplicates_loop title all_tiles ts used
               (reports @ [''Duplicate in '' @ title @ '': '' @ group_str title all_tiles
                           @ '', value '' @ [tile_value t]])
        else duplicates_loop title all_tiles ts used reports)"

definition duplicates :: "string \<Rightarrow> tile list \<Rightarrow> string list" where
  "duplicates title ts = duplicates_loop title ts ts {} []"

text \<open>
  \<^verbatim>\<open>Group.naked_single_constrain\<close>: the values already assigned in the group are
  eliminated from every UNKNOWN tile of the group.
\<close>

fun eliminate_tiles :: "char set \<Rightarrow> tile list \<Rightarrow> bool \<Rightarrow> bool \<times> tile list" where
  "eliminate_tiles used [] changed = (changed, [])"
| "eliminate_tiles used (t # ts) changed =
     (if tile_value t = UNKNOWN
      then (case eliminate used t of (c, t') \<Rightarrow>
              (case eliminate_tiles used ts (c \<or> changed) of (ch, ts') \<Rightarrow> (ch, t' # ts')))
      else (case eliminate_tiles used ts changed of (ch, ts') \<Rightarrow> (ch, t # ts')))"

definition naked_single_constrain :: "tile list \<Rightarrow> bool \<times> tile list" where
  "naked_single_constrain ts =
     (let remaining = map tile_value (filter (\<lambda>t. tile_value t \<noteq> UNKNOWN) ts);
          set_remaining = set remaining
      in eliminate_tiles set_remaining ts False)"

text \<open>
  \<^verbatim>\<open>Group.hidden_single_constrain\<close>. The leftovers are the nine digits minus the
  value of every tile of the group. Python does not fix the order in which a set of
  strings is iterated; the list \<open>order\<close> stands for it: a set is enumerated in the
  order in which its members occur in \<open>order\<close>.
\<close>

definition enumerate_set :: "char list \<Rightarrow> char set \<Rightarrow> char list" where
  "enumerate_set order S = filter (\<lambda>c. c \<in> S) order"

definition leftovers :: "tile list \<Rightarrow> char set" where
  "leftovers ts = fold (\<lambda>t L. L - {tile_value t}) ts (set ''123456789'')"

definition hidden_value :: "char \<Rightarrow> tile list \<times> bool \<Rightarrow> tile list \<times> bool" where
  "hidden_value v st =
     (case st of (ts, changed) \<Rightarrow>
        (case filter (\<lambda>k. could_be v (ts ! k)) [0..<length ts] of
           [k] \<Rightarrow> (ts[k := set_value v (ts ! k)], True)
         | _ \<Rightarrow> (ts, changed)))"

definition hidden_single_constrain :: "char list \<Rightarrow> tile list \<Rightarrow> bool \<times> tile list" where
  "hidden_single_constrain order ts =
     (case fold hidden_value (enumerate_set order (leftovers ts)) (ts, False) of
        (ts', changed) \<Rightarrow> (changed, ts'))"

section \<open>Board\<close>

text \<open>
  Modelled from the spec: the class \<^verbatim>\<open>Board\<close> of \<^verbatim>\<open>sdk_board.py\<close>. A board owns 81
  tiles in row-major order and 27 groups (9 rows, 9 columns, 9 blocks) built once; a
  group refers to its tiles by their indices in the board's storage, so a tile updated
  through one group is seen updated by the two other groups it belongs to.
\<close>

type_synonym board = "tile list"

definition row_groups :: "nat list list" where
  "row_groups = map (\<lambda>r. map (\<lambda>c. 9 * r + c) [0..<9]) [0..<9]"

definition column_groups :: "nat list list" where
  "column_groups = map (\<lambda>c. map (\<lambda>r. 9 * r + c) [0..<9]) [0..<9]"

definition block_groups :: "nat list list" where
  "block_groups =
     map (\<lambda>k. map (\<lambda>j. 9 * (3 * (k div 3) + j div 3) + (3 * (k mod 3) + j mod 3)) [0..<9])
       [0..<9]"

definition groups :: "nat list list" where
  "groups = row_groups @ column_groups @ block_groups"

definition group_tiles :: "board \<Rightarrow> nat list \<Rightarrow> tile list" where
  "group_tiles b g = map (\<lambda>i. b ! i) g"

fun write_group :: "nat list \<Rightarrow> tile list \<Rightarrow> board \<Rightarrow> board" where
  "write_group (i # g) (t # ts) b = write_group g ts (b[i := t])"
| "write_group g ts b = b"

text \<open>
  Modelled from the spec: \<^verbatim>\<open>Board.is_solved\<close> (every group is complete),
  \<^verbatim>\<open>Board.is_consistent\<close> (every group is consistent), \<^verbatim>\<open>Board.as_list\<close> (the row-major
  snapshot of the tile values) and \<^verbatim>\<open>Board.set_tiles\<close> (every tile takes its value back
  from the snapshot; the candidates are recomputed from the restored value: the value
  alone for an assigned tile, all nine choices for an UNKNOWN tile).
\<close>

definition board_is_solved :: "board \<Rightarrow> bool" where
  "board_is_solved b = list_all (\<lambda>g. group_is_complete (group_tiles b g)) groups"

definition board_is_consistent :: "board \<Rightarrow> bool" where
  "board_is_consistent b = list_all (\<lambda>g. group_is_consistent (group_tiles b g)) groups"

definition as_list :: "board \<Rightarrow> char list" where
  "as_list b = map tile_value b"

definition restore_tile :: "tile \<Rightarrow> char \<Rightarrow> tile" where
  "restore_tile t v =
     (if v = UNKNOWN then t\<lparr>tile_value := UNKNOWN, candidates := set CHOICES\<rparr>
      else set_value v t)"

definition set_tiles :: "board \<Rightarrow> char list \<Rightarrow> board" where
  "set_tiles b save = map (\<lambda>(t, v). restore_tile t v) (zip b save)"

text \<open>
  Modelled from the spec: the construction of the tiles from the initial grid of 81
  symbols. An assigned tile has its value as its only candidate; an UNKNOWN tile may
  still be any of the nine choices.
\<close>

definition new_tile :: "char \<Rightarrow> tile" where
  "new_tile v =
     (if v = UNKNOWN then \<lparr>tile_value = UNKNOWN, candidates = set CHOICES\<rparr>
      else \<lparr>tile_value = v, candidates = {v}\<rparr>)"

definition new_board :: "char list \<Rightarrow> board" where
  "new_board grid = map new_tile grid"

section \<open>Solver\<close>

text \<open>
  \<^verbatim>\<open>naked_single\<close> and \<^verbatim>\<open>hidden_single\<close> of \<^verbatim>\<open>sdk_solver.py\<close>: the loop over the
  board's groups, each group's method working on the board's tiles.
\<close>

fun naked_single_loop :: "nat list list \<Rightarrow> board \<Rightarrow> bool \<Rightarrow> bool \<times> board" where
  "naked_single_loop [] b changed = (changed, b)"
| "naked_single_loop (g # gs) b changed =
     (case naked_single_constrain (group_tiles b g) of
        (c, ts') \<Rightarrow> naked_single_loop gs (write_group g ts' b) (c \<or> changed))"

definition naked_single :: "board \<Rightarrow> bool \<times> board" where
  "naked_single b = naked_single_loop groups b False"

fun hidden_single_loop :: "char list \<Rightarrow> nat list list \<Rightarrow> board \<Rightarrow> bool \<Rightarrow> bool \<times> board" where
  "hidden_single_loop order [] b changed = (changed, b)"
| "hidden_single_loop order (g # gs) b changed =
     (case hidden_single_constrain order (group_tiles b g) of
        (c, ts') \<Rightarrow> hidden_single_loop order gs (write_group g ts' b) (c \<or> changed))"

definition hidden_single :: "char list \<Rightarrow> board \<Rightarrow> bool \<times> board" where
  "hidden_single order b = hidden_single_loop order groups b False"

text \<open>
  \<^verbatim>\<open>propagate\<close>: the \<^verbatim>\<open>while changed\<close> loop, entered with \<^verbatim>\<open>changed = True\<close>. The
  result is the board when the function returns; \<open>None\<close> stands for a loop that never
  ends.
\<close>

partial_function (option) propagate :: "char list \<Rightarrow> board \<Rightarrow> board option" where
  "propagate order b =
     (case naked_single b of
        (changed, b1) \<Rightarrow>
          if board_is_solved b1 \<or> \<not> board_is_consistent b1 then Some b1
          else (case hidden_single order b1 of
                  (changed2, b2) \<Rightarrow>
                    if board_is_solved b2 \<or> \<not> board_is_consistent b2 then Some b2
                    else if changed2 \<or> changed then propagate order b2
                    else Some b2))"

declare propagate.simps [code]

text \<open>
  The scan of \<^verbatim>\<open>solve\<close> for the tile to guess, over the tiles in row-major order, with
  \<^verbatim>\<open>min_cands\<close> starting at 10 and \<^verbatim>\<open>best_tile\<close> at \<^verbatim>\<open>None\<close>; the tile is kept as its
  index \<open>k\<close>.
\<close>

fun scan_tiles :: "tile list \<Rightarrow> nat \<Rightarrow> nat \<Rightarrow> nat option \<Rightarrow> nat option" where
  "scan_tiles [] k min_cands best_tile = best_tile"
| "scan_tiles (t # ts) k min_cands best_tile =
     (if tile_value t = UNKNOWN \<and> card (candidates t) < min_cands
      then scan_tiles ts (Suc k) (card (candidates t)) (Some k)
      else scan_tiles ts (Suc k) min_cands best_tile)"

definition best_tile :: "board \<Rightarrow> nat option" where
  "best_tile b = scan_tiles b 0 10 None"

text \<open>
  \<^verbatim>\<open>solve\<close>. Reading \<^verbatim>\<open>best_tile.candidates\<close> when \<^verbatim>\<open>best_tile\<close> is \<^verbatim>\<open>None\<close> raises
  \<^verbatim>\<open>AttributeError\<close>. The first argument bounds the depth of the recursion: \<open>None\<close>
  is returned when the bound is reached or when \<^verbatim>\<open>propagate\<close> does not return.
  \<open>guess\<close> is the loop over the candidates of the chosen tile; the candidates are
  those the tile had when the loop started.
\<close>

datatype error = AttributeError

fun solve :: "nat \<Rightarrow> char list \<Rightarrow> board \<Rightarrow> (error + bool \<times> board) option"
  and guess ::
    "nat \<Rightarrow> char list \<Rightarrow> char list \<Rightarrow> nat \<Rightarrow> char list \<Rightarrow> board
       \<Rightarrow> (error + bool \<times> board) option" where
  "solve 0 order b = None"
| "solve (Suc n) order b =
     (case propagate order b of
        None \<Rightarrow> None
      | Some b1 \<Rightarrow>
          if board_is_solved b1 then Some (Inr (True, b1))
          else if \<not> board_is_consistent b1 then Some (Inr (False, b1))
          else (case best_tile b1 of
                  None \<Rightarrow> Some (Inl AttributeError)
                | Some k \<Rightarrow>
                    guess n order (enumerate_set order (candidates (b1 ! k))) k
                      (as_list b1) b1))"
| "guess n order [] k save b = Some (Inr (False, b))"
| "guess n order (cands # rest) k save b =
     (case solve n order (b[k := set_value cands (b ! k)]) of
        None \<Rightarrow> None
      | Some (Inl e) \<Rightarrow> Some (Inl e)
      | Some (Inr (True, b')) \<Rightarrow> Some (Inr (True, b'))
      | Some (Inr (False, b')) \<Rightarrow> guess n order rest k save (set_tiles b' save))"

section \<open>Notions used in the proofs\<close>

text \<open>
  The invariant of the scan for the tile to guess: \<open>pre\<close> is the part of the board
  already scanned, \<open>m\<close> is \<^verbatim>\<open>min_cands\<close> and \<open>best\<close> is \<^verbatim>\<open>best_tile\<close>.
\<close>

definition scan_inv :: "tile list \<Rightarrow> nat \<Rightarrow> nat option \<Rightarrow> bool" where
  "scan_inv pre m best =
     (case best of
        None \<Rightarrow> m = 10 \<and> (\<forall>j<length pre. tile_value (pre ! j) = UNKNOWN \<longrightarrow> 10 \<le> card (candidates (pre ! j)))
      | Some i \<Rightarrow> i < length pre \<and> tile_value (pre ! i) = UNKNOWN \<and> card (candidates (pre ! i)) = m \<and> m < 10 \<and>
          (\<forall>j<length pre. tile_value (pre ! j) = UNKNOWN \<longrightarrow> m \<le> card (candidates (pre ! j))) \<and>
          (\<forall>j<i. tile_value (pre ! j) = UNKNOWN \<longrightarrow> m < card (candidates (pre ! j))))"

text \<open>
  Tile \<open>k\<close> holds \<open>v\<close> and no other tile of the group could be \<open>v\<close>.
\<close>

definition holds_alone :: "char \<Rightarrow> nat \<Rightarrow> tile list \<Rightarrow> bool" where
  "holds_alone v k ts \<longleftrightarrow>
     k < length ts \<and> tile_value (ts ! k) = v \<and> candidates (ts ! k) = {v} \<and>
     (\<forall>j<length ts. j \<noteq> k \<longrightarrow> v \<notin> candidates (ts ! j))"

text \<open>
  A board with four UNKNOWN tiles, at the indices 2, 38, 39 and 78, with three, two, nine
  and two candidates.
\<close>

definition guess_board :: board where
  "guess_board = (new_board ''12.456789456789123789123456234567891567.91234891234567345678912678912345912345.78'')
      [2 := \<lparr>tile_value = UNKNOWN, candidates = {CHR ''3'', CHR ''1'', CHR ''2''}\<rparr>,
       38 := \<lparr>tile_value = UNKNOWN, candidates = {CHR ''8'', CHR ''6''}\<rparr>,
       78 := \<lparr>tile_value = UNKNOWN, candidates = {CHR ''4'', CHR ''6''}\<rparr>]"

fun groups_loop ::
  "(tile list \<Rightarrow> bool \<times> tile list) \<Rightarrow> nat list list \<Rightarrow> board \<Rightarrow> bool \<Rightarrow> bool \<times> board" where
  "groups_loop f [] b changed = (changed, b)"
| "groups_loop f (g # gs) b changed =
     (case f (group_tiles b g) of
        (c, ts') \<Rightarrow> groups_loop f gs (write_group g ts' b) (c \<or> changed))"

definition weight :: "tile \<Rightarrow> nat" where
  "weight t = card (candidates t) + (if candidates t = {tile_value t} then 0 else 1)"

definition board_weight :: "tile list \<Rightarrow> nat" where
  "board_weight b = sum_list (map weight b)"

definition lighter :: "tile \<Rightarrow> tile \<Rightarrow> bool" where
  "lighter t t' \<longleftrightarrow> t' = t \<or> weight t' < weight t"

definition closed_rel :: "(tile \<Rightarrow> tile \<Rightarrow> bool) \<Rightarrow> bool" where
  "closed_rel Q \<longleftrightarrow>
     (\<forall>t. Q t t) \<and> (\<forall>a b c. Q a b \<longrightarrow> Q b c \<longrightarrow> Q a c) \<and>
     (\<forall>t used. tile_value t = UNKNOWN \<longrightarrow> UNKNOWN \<notin> used \<longrightarrow>
          Q t (t\<lparr>candidates := candidates t - used\<rparr>)) \<and>
     (\<forall>t v. v \<in> candidates t \<longrightarrow> v \<in> set CHOICES \<longrightarrow> Q t (set_value v t))"

definition tile_ok :: "tile \<Rightarrow> bool" where
  "tile_ok t \<longleftrightarrow>
     candidates t \<subseteq> set CHOICES \<and> (tile_value t \<noteq> UNKNOWN \<longrightarrow> candidates t = {tile_value t})"

definition narrows :: "tile \<Rightarrow> tile \<Rightarrow> bool" where
  "narrows t t' \<longleftrightarrow>
     (tile_ok t \<longrightarrow>
        tile_ok t' \<and> candidates t' \<subseteq> candidates t \<and> (tile_value t \<noteq> UNKNOWN \<longrightarrow> t' = t))"

definition same_value :: "tile \<Rightarrow> tile \<Rightarrow> bool" where
  "same_value t t' \<longleftrightarrow> tile_value t' = tile_value t"

definition progress :: "tile \<Rightarrow> tile \<Rightarrow> bool" where
  "progress t t' \<longleftrightarrow> lighter t t' \<and> narrows t t'"

definition board_ok :: "board \<Rightarrow> bool" where
  "board_ok b \<longleftrightarrow> length b = 81 \<and> list_all tile_ok b"

text \<open>
  The number of UNKNOWN tiles of a board: it bounds the depth of the search.
\<close>

definition unknown_count :: "board \<Rightarrow> nat" where
  "unknown_count b = length (filter (\<lambda>t. tile_value t = UNKNOWN) b)"

text \<open>
  Boards for the scenarios: two cells holding 5 in the first row of an otherwise empty
  grid; a grid holding 5 and 6 in the first and the third cell of its first row, and the
  same grid with 5 or 6 guessed for the second cell; a puzzle on which propagation
  stalls.
\<close>

definition scenario_c :: board where
  "scenario_c = new_board ''55...............................................................................''"

definition five_six :: board where
  "five_six = new_board ''5.6..............................................................................''"

definition five_five_six :: board where
  "five_five_six = new_board ''556..............................................................................''"

definition five_six_six :: board where
  "five_six_six = new_board ''566..............................................................................''"

definition stalling_puzzle :: board where
  "stalling_puzzle = new_board ''..............3.85..1.2.......5.7.....4...1...9.......5......73..2.1........4...9''"

text \<open>
  Scenario D: a puzzle with consistent givens and exactly one solution
  (\<^verbatim>\<open>861537249423698157759124368617485923985263471342971685138746592274359816596812734\<close>),
  on which propagation stalls with 13 UNKNOWN tiles of at least two candidates each; the
  tile chosen for the guess is the one at index 10, with the candidates 2 and 7. Then
  the same grid with the wrong value 7 in that cell, and the complete grid that the
  search reaches from there, in which rows, columns and blocks repeat digits.
\<close>

definition scenario_d :: board where
  "scenario_d = new_board ''8615372494.369.15..591.436.6174..923985263471342971685138746592..43.9816.9681.734''"

definition wrong_guess :: board where
  "wrong_guess = new_board ''86153724947369.15..591.436.6174..923985263471342971685138746592..43.9816.9681.734''"

definition wrong_solution :: board where
  "wrong_solution = new_board ''861537249473692158259124367617458923985263471342971685138746592724359816596815734''"

text \<open>
  A group in which the first tile is the only one that could be 1 and the only one that
  could be 2; it is consistent, and \<^verbatim>\<open>naked_single_constrain\<close> leaves it unchanged.
\<close>

definition sole_holder_twice :: "tile list" where
  "sole_holder_twice =
     [\<lparr>tile_value = UNKNOWN, candidates = {CHR ''1'', CHR ''2''}\<rparr>,
      \<lparr>tile_value = UNKNOWN, candidates = {CHR ''3''}\<rparr>,
      \<lparr>tile_value = UNKNOWN, candidates = {CHR ''3''}\<rparr>,
      new_tile (CHR ''4''), new_tile (CHR ''5''), new_tile (CHR ''6''),
      new_tile (CHR ''7''), new_tile (CHR ''8''), new_tile (CHR ''9'')]"

text \<open>
  The guess loop as the spec words it: every candidate is tried on the board restored
  from the snapshot, and the loop ends on that board when no candidate succeeds. It
  is compared with \<open>guess\<close>, which threads the board through the recursive calls.
\<close>

fun restored_search ::
  "nat \<Rightarrow> char list \<Rightarrow> char list \<Rightarrow> nat \<Rightarrow> char list \<Rightarrow> (error + bool \<times> board) option" where
  "restored_search n order [] k save = Some (Inr (False, new_board save))"
| "restored_search n order (cands # rest) k save =
     (case solve n order ((new_board save)[k := set_value cands (new_board save ! k)]) of
        None \<Rightarrow> None
      | Some (Inl e) \<Rightarrow> Some (Inl e)
      | Some (Inr (True, b')) \<Rightarrow> Some (Inr (True, b'))
      | Some (Inr (False, b')) \<Rightarrow> restored_search n order rest k save)"

section \<open>Group.duplicates\<close>

lemma duplicates_loop_empty_used:
  "duplicates_loop title all_tiles ts {} reports = reports"
  by (induction ts arbitrary: reports) simp_all

text \<open>
  Claim C4. \<^verbatim>\<open>Group.duplicates\<close> is documented as one report per duplicate found,
  but \<^verbatim>\<open>used\<close> stays empty, so for every group the list of reports is empty, also
  when two member tiles hold the same assigned value.
\<close>

theorem duplicates_reports_nothing:
  "duplicates title ts = []"
  by (simp add: duplicates_def duplicates_loop_empty_used)

section \<open>Group.is_consistent\<close>

lemma consistent_loop_iff:
  "UNKNOWN \<notin> used \<Longrightarrow>
   consistent_loop ts can_place used \<longleftrightarrow>
     (\<forall>t\<in>set ts. candidates t \<noteq> {}) \<and>
     (\<forall>t\<in>set ts. tile_value t \<notin> used) \<and>
     distinct (filter (\<lambda>v. v \<noteq> UNKNOWN) (map tile_value ts)) \<and>
     can_place \<union> (\<Union>t\<in>set ts. candidates t) = set CHOICES"
proof (induction ts arbitrary: can_place used)
  case Nil
  then show ?case by simp
next
  case (Cons t ts)
  show ?case
  proof (cases "candidates t = {} \<or> tile_value t \<in> used")
    case True
    then show ?thesis by auto
  next
    case False
    show ?thesis
    proof (cases "tile_value t = UNKNOWN")
      case True
      with False Cons.prems Cons.IH [of used "can_place \<union> candidates t"] show ?thesis
        by (simp add: Un_assoc)
    next
      case unk: False
      have "UNKNOWN \<notin> insert (tile_value t) used" using unk Cons.prems by auto
      from Cons.IH [OF this, of "can_place \<union> candidates t"]
      have IH: "consistent_loop ts (can_place \<union> candidates t) (insert (tile_value t) used) \<longleftrightarrow>
          (\<forall>t\<in>set ts. candidates t \<noteq> {}) \<and>
          ((\<forall>t'\<in>set ts. tile_value t' \<notin> used) \<and> tile_value t \<notin> tile_value ` set ts) \<and>
          distinct (filter (\<lambda>v. v \<noteq> UNKNOWN) (map tile_value ts)) \<and>
          can_place \<union> candidates t \<union> (\<Union>t\<in>set ts. candidates t) = set CHOICES"
        by (simp only: ball_conj_distrib [symmetric]) (auto simp: image_iff)
      show ?thesis using False unk
        by (simp add: IH Un_assoc conj_ac)

    qed
  qed
qed

lemma not_distinct_assigned:
  "\<not> distinct (filter (\<lambda>v. v \<noteq> UNKNOWN) (map tile_value ts)) \<longleftrightarrow>
   (\<exists>i j. i < j \<and> j < length ts \<and> tile_value (ts ! i) \<noteq> UNKNOWN \<and>
          tile_value (ts ! i) = tile_value (ts ! j))"
proof (induction ts)
  case Nil
  then show ?case by simp
next
  case (Cons t ts)
  have split: "(\<exists>i j. i < j \<and> j < length (t # ts) \<and> tile_value ((t # ts) ! i) \<noteq> UNKNOWN \<and>
          tile_value ((t # ts) ! i) = tile_value ((t # ts) ! j)) \<longleftrightarrow>
     (tile_value t \<noteq> UNKNOWN \<and> (\<exists>j < length ts. tile_value t = tile_value (ts ! j))) \<or>
     (\<exists>i j. i < j \<and> j < length ts \<and> tile_value (ts ! i) \<noteq> UNKNOWN \<and>
          tile_value (ts ! i) = tile_value (ts ! j))" (is "?L \<longleftrightarrow> ?A \<or> ?B")
  proof
    assume ?L
    then obtain i j where ij: "i < j" "j < length (t # ts)" "tile_value ((t # ts) ! i) \<noteq> UNKNOWN"
      "tile_value ((t # ts) ! i) = tile_value ((t # ts) ! j)" by blast
    from ij(1) obtain j' where j': "j = Suc j'" by (cases j) auto
    show "?A \<or> ?B"
    proof (cases i)
      case 0
      with ij j' have ?A by auto
      then show ?thesis ..
    next
      case (Suc i')
      with ij j' have "i' < j' \<and> j' < length ts \<and> tile_value (ts ! i') \<noteq> UNKNOWN \<and>
          tile_value (ts ! i') = tile_value (ts ! j')" by auto
      then have ?B by blast
      then show ?thesis ..
    qed
  next
    assume "?A \<or> ?B"
    then show ?L
    proof
      assume ?A
      then obtain j where "j < length ts" "tile_value t = tile_value (ts ! j)" "tile_value t \<noteq> UNKNOWN"
        by blast
      then have "0 < Suc j \<and> Suc j < length (t # ts) \<and> tile_value ((t # ts) ! 0) \<noteq> UNKNOWN \<and>
          tile_value ((t # ts) ! 0) = tile_value ((t # ts) ! Suc j)" by simp
      then show ?L by blast
    next
      assume ?B
      then obtain i j where "i < j" "j < length ts" "tile_value (ts ! i) \<noteq> UNKNOWN"
          "tile_value (ts ! i) = tile_value (ts ! j)" by blast
      then have "Suc i < Suc j \<and> Suc j < length (t # ts) \<and> tile_value ((t # ts) ! Suc i) \<noteq> UNKNOWN \<and>
          tile_value ((t # ts) ! Suc i) = tile_value ((t # ts) ! Suc j)" by simp
      then show ?L by blast
    qed
  qed
  have mem: "tile_value t \<in> set (map tile_value ts) \<longleftrightarrow> (\<exists>j < length ts. tile_value t = tile_value (ts ! j))"
    by (force simp: in_set_conv_nth)
  show ?case unfolding split using Cons.IH mem by auto
qed

text \<open>
  Claim C3. For a group whose tiles have candidates among the nine digits,
  \<^verbatim>\<open>Group.is_consistent\<close> returns false exactly when some member tile has no candidate
  left, or two member tiles hold the same assigned (non-UNKNOWN) value, or the union of
  the members' candidates does not cover every digit.
\<close>

theorem group_is_consistent_false_iff:
  assumes "\<forall>t\<in>set ts. candidates t \<subseteq> set CHOICES"
  shows "group_is_consistent ts = False \<longleftrightarrow>
           (\<exists>t\<in>set ts. candidates t = {}) \<or>
           (\<exists>i j. i < j \<and> j < length ts \<and> tile_value (ts ! i) \<noteq> UNKNOWN \<and>
                  tile_value (ts ! i) = tile_value (ts ! j)) \<or>
           \<not> set CHOICES \<subseteq> (\<Union>t\<in>set ts. candidates t)"
proof -
  have cover: "(\<Union>t\<in>set ts. candidates t) = set CHOICES \<longleftrightarrow> set CHOICES \<subseteq> (\<Union>t\<in>set ts. candidates t)"
    using assms by blast
  have "group_is_consistent ts \<longleftrightarrow>
     (\<forall>t\<in>set ts. candidates t \<noteq> {}) \<and>
     distinct (filter (\<lambda>v. v \<noteq> UNKNOWN) (map tile_value ts)) \<and>
     (\<Union>t\<in>set ts. candidates t) = set CHOICES"
    unfolding group_is_consistent_def by (subst consistent_loop_iff) simp_all
  then show ?thesis
    unfolding cover not_distinct_assigned [symmetric] by blast
qed

theorem group_is_consistent_false_iff_witness:
  "group_is_consistent (map new_tile ''55.......'') = False"
proof -
  let ?g = "map new_tile ''55.......''"
  have typed: "\<forall>t\<in>set ?g. candidates t \<subseteq> set CHOICES"
    by (simp add: new_tile_def UNKNOWN_def CHOICES_def)
  have "(0::nat) < 1 \<and> 1 < length ?g \<and> tile_value (?g ! 0) \<noteq> UNKNOWN \<and>
        tile_value (?g ! 0) = tile_value (?g ! 1)"
    by (simp add: new_tile_def UNKNOWN_def)
  then have "\<exists>i j. i < j \<and> j < length ?g \<and> tile_value (?g ! i) \<noteq> UNKNOWN \<and>
        tile_value (?g ! i) = tile_value (?g ! j)"
    by blast
  with group_is_consistent_false_iff [OF typed] show ?thesis
    by blast
qed

section \<open>The tile chosen for guessing\<close>

lemma scan_inv_step:
  assumes "scan_inv pre m best"
  shows "scan_inv (pre @ [t])
           (if tile_value t = UNKNOWN \<and> card (candidates t) < m then card (candidates t) else m)
           (if tile_value t = UNKNOWN \<and> card (candidates t) < m then Some (length pre) else best)"
proof (cases "tile_value t = UNKNOWN \<and> card (candidates t) < m")
  case True
  have m10: "m \<le> 10" using assms by (auto simp: scan_inv_def split: option.splits)
  have low: "\<forall>j<length pre. tile_value (pre ! j) = UNKNOWN \<longrightarrow> m \<le> card (candidates (pre ! j))"
    using assms by (auto simp: scan_inv_def split: option.splits)
  show ?thesis using True m10 low
    by (auto simp: scan_inv_def nth_append less_Suc_eq)
next
  case False
  show ?thesis
  proof (cases best)
    case None
    with assms False show ?thesis
      by (auto simp: scan_inv_def nth_append less_Suc_eq)
  next
    case (Some i)
    with assms False show ?thesis
      by (auto simp: scan_inv_def nth_append less_Suc_eq)
  qed
qed

lemma scan_tiles_inv:
  "scan_inv pre m best \<Longrightarrow>
   \<exists>m'. scan_inv (pre @ ts) m' (scan_tiles ts (length pre) m best)"
proof (induction ts arbitrary: pre m best)
  case Nil
  then show ?case by auto
next
  case (Cons t ts)
  let ?hit = "tile_value t = UNKNOWN \<and> card (candidates t) < m"
  from Cons.IH [OF scan_inv_step [OF Cons.prems, of t]]
  obtain m' where "scan_inv ((pre @ [t]) @ ts) m'
      (scan_tiles ts (length (pre @ [t])) (if ?hit then card (candidates t) else m)
         (if ?hit then Some (length pre) else best))" by blast
  then have "scan_inv (pre @ t # ts) m' (scan_tiles (t # ts) (length pre) m best)"
    by (cases ?hit) auto
  then show ?case ..
qed

lemma scan_inv_Nil: "scan_inv [] 10 None"
  by (simp add: scan_inv_def)

text \<open>
  Claim C7. The tile \<^verbatim>\<open>solve\<close> chooses for guessing is an UNKNOWN tile, no UNKNOWN tile
  has fewer candidates, and every UNKNOWN tile before it in row-major order has strictly
  more candidates: the first tile at the minimum is selected.
\<close>

theorem best_tile_fewest_first:
  assumes "best_tile b = Some k"
  shows "k < length b \<and> tile_value (b ! k) = UNKNOWN \<and>
         (\<forall>j<length b. tile_value (b ! j) = UNKNOWN \<longrightarrow>
              card (candidates (b ! k)) \<le> card (candidates (b ! j))) \<and>
         (\<forall>j<k. tile_value (b ! j) = UNKNOWN \<longrightarrow>
              card (candidates (b ! k)) < card (candidates (b ! j)))"
  using scan_tiles_inv [OF scan_inv_Nil, of b] assms
  by (auto simp add: best_tile_def scan_inv_def)

theorem best_tile_fewest_first_witness:
  "best_tile guess_board = Some 38 \<and>
   tile_value (guess_board ! 38) = UNKNOWN \<and>
   card (candidates (guess_board ! 38)) \<le> card (candidates (guess_board ! 78)) \<and>
   card (candidates (guess_board ! 38)) < card (candidates (guess_board ! 2))"
proof -
  have best: "best_tile guess_board = Some 38"
    by (simp add: guess_board_def best_tile_def new_board_def new_tile_def UNKNOWN_def CHOICES_def)
  have len: "length guess_board = 81"
    by (simp add: guess_board_def new_board_def)
  have u78: "tile_value (guess_board ! 78) = UNKNOWN" and u2: "tile_value (guess_board ! 2) = UNKNOWN"
    by (simp_all add: guess_board_def new_board_def)
  from best_tile_fewest_first [OF best] len u78 u2 show ?thesis
    using best by simp
qed

lemma best_tile_None:
  assumes "best_tile b = None"
  shows "\<forall>j<length b. tile_value (b ! j) = UNKNOWN \<longrightarrow> 10 \<le> card (candidates (b ! j))"
  using scan_tiles_inv [OF scan_inv_Nil, of b] assms
  by (auto simp add: best_tile_def scan_inv_def)

section \<open>Group.hidden_single_constrain\<close>

lemma fold_remove_values:
  "fold (\<lambda>t L. L - {tile_value t}) ts A = A - tile_value ` set ts"
  by (induction ts arbitrary: A) auto

lemma leftovers_eq: "leftovers ts = set CHOICES - tile_value ` set ts"
  by (simp add: leftovers_def fold_remove_values CHOICES_def)

lemma singleton_list:
  assumes "distinct xs" and "set xs = {k}"
  shows "xs = [k]"
proof -
  have "length xs = card (set xs)" using assms(1) by (simp add: distinct_card)
  then have "length xs = 1" using assms(2) by simp
  then obtain x where "xs = [x]" by (cases xs) auto
  with assms(2) show ?thesis by simp
qed

lemma filter_upt_single:
  "filter P [0..<n] = [k] \<longleftrightarrow> k < n \<and> P k \<and> (\<forall>j<n. P j \<longrightarrow> j = k)"
proof
  assume "filter P [0..<n] = [k]"
  then have "set (filter P [0..<n]) = {k}" by simp
  then have "{j. j < n \<and> P j} = {k}" by (simp add: conj_commute)
  then show "k < n \<and> P k \<and> (\<forall>j<n. P j \<longrightarrow> j = k)" by blast
next
  assume r: "k < n \<and> P k \<and> (\<forall>j<n. P j \<longrightarrow> j = k)"
  have "set (filter P [0..<n]) = {k}" using r by auto
  moreover have "distinct (filter P [0..<n])" by simp
  ultimately show "filter P [0..<n] = [k]" by (rule singleton_list [rotated])
qed

lemma hidden_value_cases:
  obtains (assign) k where "filter (\<lambda>k. could_be v (ts ! k)) [0..<length ts] = [k]"
      "hidden_value v (ts, c) = (ts[k := set_value v (ts ! k)], True)"
  | (skip) "hidden_value v (ts, c) = (ts, c)"
proof (cases "filter (\<lambda>k. could_be v (ts ! k)) [0..<length ts]")
  case Nil
  then have "hidden_value v (ts, c) = (ts, c)" by (simp add: hidden_value_def)
  then show ?thesis by (rule skip)
next
  case (Cons k ks)
  show ?thesis
  proof (cases ks)
    case Nil
    with Cons have "hidden_value v (ts, c) = (ts[k := set_value v (ts ! k)], True)"
      by (simp add: hidden_value_def)
    with Cons Nil show ?thesis by (intro assign [of k]) simp_all
  next
    case (Cons k' ks')
    with \<open>filter (\<lambda>k. could_be v (ts ! k)) [0..<length ts] = k # ks\<close>
    have "hidden_value v (ts, c) = (ts, c)" by (simp add: hidden_value_def)
    then show ?thesis by (rule skip)
  qed
qed

lemma hidden_value_keeps:
  assumes "holds_alone v k ts" and "hidden_value d (ts, c) = (ts', c')"
  shows "holds_alone v k ts' \<and> (c \<longrightarrow> c')"
proof (cases rule: hidden_value_cases [of d ts c])
  case (assign i)
  from assign(1) have i: "i < length ts" "d \<in> candidates (ts ! i)"
    and only: "\<forall>j<length ts. d \<in> candidates (ts ! j) \<longrightarrow> j = i"
    by (simp_all add: filter_upt_single could_be_def)
  from assign(2) assms(2) have ts': "ts' = ts[i := set_value d (ts ! i)]" and c': "c'" by simp_all
  show ?thesis
  proof (cases "i = k")
    case True
    with i assms(1) have "d = v" by (simp add: holds_alone_def)
    with True assms(1) ts' c' show ?thesis
      by (auto simp: holds_alone_def set_value_def nth_list_update)
  next
    case False
    with i assms(1) have "d \<noteq> v" by (auto simp: holds_alone_def)
    with False assms(1) ts' c' i show ?thesis
      by (auto simp: holds_alone_def set_value_def nth_list_update)
  qed
next
  case skip
  with assms show ?thesis by simp
qed

lemma fold_hidden_value_keeps:
  "holds_alone v k ts \<Longrightarrow> fold hidden_value ds (ts, c) = (ts', c') \<Longrightarrow>
   holds_alone v k ts' \<and> (c \<longrightarrow> c')"
proof (induction ds arbitrary: ts c)
  case Nil
  then show ?case by simp
next
  case (Cons d ds)
  obtain ts1 c1 where step: "hidden_value d (ts, c) = (ts1, c1)" by (cases "hidden_value d (ts, c)")
  from hidden_value_keeps [OF Cons.prems(1) step] have k1: "holds_alone v k ts1" and c1: "c \<longrightarrow> c1"
    by simp_all
  from Cons.prems(2) step have "fold hidden_value ds (ts1, c1) = (ts', c')" by simp
  from Cons.IH [OF k1 this] c1 show ?case by blast
qed

lemma enumerated_is_leftover: "enumerate_set order (leftovers ts) = pre @ v # post \<Longrightarrow> v \<in> leftovers ts"
proof -
  assume turn: "enumerate_set order (leftovers ts) = pre @ v # post"
  have "v \<in> set (pre @ v # post)" by simp
  then have "v \<in> set (enumerate_set order (leftovers ts))" by (simp only: turn)
  then show "v \<in> leftovers ts" by (simp add: enumerate_set_def)
qed

lemma hidden_value_assigns: assumes one: "k < length mid" "could_be v (mid ! k)"
      "\<forall>j<length mid. could_be v (mid ! j) \<longrightarrow> j = k"
  shows "hidden_value v (mid, c) = (mid[k := set_value v (mid ! k)], True)"
proof -
  have "filter (\<lambda>k. could_be v (mid ! k)) [0..<length mid] = [k]"
    using one by (subst filter_upt_single) blast
  then show ?thesis
    by (simp add: hidden_value_def)
qed

lemma holds_alone_after_set_value: assumes one: "k < length mid" "could_be v (mid ! k)"
      "\<forall>j<length mid. could_be v (mid ! j) \<longrightarrow> j = k"
  shows "holds_alone v k (mid[k := set_value v (mid ! k)])"
proof -
  have others: "\<forall>j<length mid. j \<noteq> k \<longrightarrow> v \<notin> candidates (mid ! j)"
    using one(3) unfolding could_be_def by blast
  have "tile_value ((mid[k := set_value v (mid ! k)]) ! k) = v"
       "candidates ((mid[k := set_value v (mid ! k)]) ! k) = {v}"
    using one(1) by (simp_all add: set_value_def)
  moreover have "\<forall>j<length (mid[k := set_value v (mid ! k)]). j \<noteq> k \<longrightarrow>
      v \<notin> candidates ((mid[k := set_value v (mid ! k)]) ! j)"
    using others by simp
  ultimately show ?thesis
    unfolding holds_alone_def using one(1) by simp
qed

text \<open>
  Claim C5, as amended. \<^verbatim>\<open>Group.hidden_single_constrain\<close> computes the leftovers as
  the digits 1-9 that no tile of the group holds as its value. For each leftover digit
  \<open>v\<close>: if, when the loop reaches \<open>v\<close> (after the assignments it has made for the
  digits before \<open>v\<close>), exactly one member tile has \<open>v\<close> among its candidates, then that
  tile holds \<open>v\<close> (with \<open>v\<close> as its only candidate) when the method returns, and the
  method returns true. The witness is the row \<^verbatim>\<open>1 2 3 4 5 _ 7 8 9\<close>. The counterexample
  shows that the candidates of the group as the method receives it do not decide it: a
  tile that is the only holder of two leftover digits gets the one that is enumerated
  first, and the other digit is assigned to no tile.
\<close>

theorem hidden_single_constrain_assigns:
  assumes turn: "enumerate_set order (leftovers ts) = pre @ v # post"
    and before: "fold hidden_value pre (ts, False) = (mid, c)"
    and one: "k < length mid" "could_be v (mid ! k)"
      "\<forall>j<length mid. could_be v (mid ! j) \<longrightarrow> j = k"
  shows "leftovers ts = set CHOICES - tile_value ` set ts \<and>
         v \<in> leftovers ts \<and>
         (\<exists>ts'. hidden_single_constrain order ts = (True, ts') \<and>
                tile_value (ts' ! k) = v \<and> candidates (ts' ! k) = {v})"
proof -
  have left: "v \<in> leftovers ts" using turn by (rule enumerated_is_leftover)
  have step: "hidden_value v (mid, c) = (mid[k := set_value v (mid ! k)], True)"
    using one by (rule hidden_value_assigns)
  have alone: "holds_alone v k (mid[k := set_value v (mid ! k)])"
    using one by (rule holds_alone_after_set_value)
  obtain ts' c' where rest: "fold hidden_value post (mid[k := set_value v (mid ! k)], True) = (ts', c')"
    by (cases "fold hidden_value post (mid[k := set_value v (mid ! k)], True)")
  from fold_hidden_value_keeps [OF alone rest] have fin: "holds_alone v k ts'" "c'" by simp_all
  have "fold hidden_value (pre @ v # post) (ts, False) = (ts', c')"
    by (simp only: fold_append fold_Cons comp_apply before step rest)
  then have "fold hidden_value (enumerate_set order (leftovers ts)) (ts, False) = (ts', c')"
    by (simp only: turn)
  then have "hidden_single_constrain order ts = (True, ts')"
    using fin(2) by (simp add: hidden_single_constrain_def)
  moreover have "tile_value (ts' ! k) = v" "candidates (ts' ! k) = {v}"
    using fin(1) by (simp_all add: holds_alone_def)
  ultimately show ?thesis using left leftovers_eq [of ts] by blast
qed

theorem hidden_single_constrain_assigns_witness:
  "\<exists>ts'. hidden_single_constrain ''123456789'' (map new_tile ''12345.789'') = (True, ts') \<and>
         tile_value (ts' ! 5) = CHR ''6'' \<and> candidates (ts' ! 5) = {CHR ''6''}"
proof -
  define g where "g = map new_tile ''12345.789''"
  have g: "g = [new_tile CHR ''1'', new_tile CHR ''2'', new_tile CHR ''3'', new_tile CHR ''4'',
      new_tile CHR ''5'', new_tile CHR ''.'', new_tile CHR ''7'', new_tile CHR ''8'', new_tile CHR ''9'']"
    by (simp add: g_def)
  have lo: "leftovers g = {CHR ''6''}"
    unfolding leftovers_eq g by (auto simp add: new_tile_def UNKNOWN_def CHOICES_def)
  have turn: "enumerate_set ''123456789'' (leftovers g) = [] @ CHR ''6'' # []"
    unfolding lo by (simp add: enumerate_set_def)
  have before: "fold hidden_value [] (g, False) = (g, False)" by simp
  have k: "5 < length g" by (simp add: g)
  have cb: "could_be (CHR ''6'') (g ! 5)"
    by (simp add: g could_be_def new_tile_def UNKNOWN_def CHOICES_def)
  have only: "\<forall>j<length g. could_be (CHR ''6'') (g ! j) \<longrightarrow> j = 5"
  proof (intro allI impI)
    fix j assume j: "j < length g" and c: "could_be (CHR ''6'') (g ! j)"
    from j have "j \<in> {0,1,2,3,4,5,6,7,8}" by (auto simp: g)
    with c show "j = 5"
      by (auto simp: g could_be_def new_tile_def UNKNOWN_def)
  qed
  from hidden_single_constrain_assigns [OF turn before k cb only] show ?thesis
    unfolding g_def by blast
qed

theorem hidden_single_constrain_counterexample:
  "group_is_consistent sole_holder_twice \<and>
   CHR ''1'' \<in> leftovers sole_holder_twice \<and> CHR ''2'' \<in> leftovers sole_holder_twice \<and>
   filter (\<lambda>k. could_be (CHR ''1'') (sole_holder_twice ! k)) [0..<length sole_holder_twice] = [0] \<and>
   filter (\<lambda>k. could_be (CHR ''2'') (sole_holder_twice ! k)) [0..<length sole_holder_twice] = [0] \<and>
   map tile_value (snd (hidden_single_constrain ''123456789'' sole_holder_twice)) = ''1..456789'' \<and>
   map tile_value (snd (hidden_single_constrain ''213456789'' sole_holder_twice)) = ''2..456789''"
  unfolding sole_holder_twice_def by code_simp

section \<open>Propagation on the board\<close>

subsection \<open>The groups of the board\<close>

lemma groups_eval:
  "groups =
    [[0, 1, 2, 3, 4, 5, 6, 7, 8], [9, 10, 11, 12, 13, 14, 15, 16, 17],
     [18, 19, 20, 21, 22, 23, 24, 25, 26], [27, 28, 29, 30, 31, 32, 33, 34, 35],
     [36, 37, 38, 39, 40, 41, 42, 43, 44], [45, 46, 47, 48, 49, 50, 51, 52, 53],
     [54, 55, 56, 57, 58, 59, 60, 61, 62], [63, 64, 65, 66, 67, 68, 69, 70, 71],
     [72, 73, 74, 75, 76, 77, 78, 79, 80], [0, 9, 18, 27, 36, 45, 54, 63, 72],
     [1, 10, 19, 28, 37, 46, 55, 64, 73], [2, 11, 20, 29, 38, 47, 56, 65, 74],
     [3, 12, 21, 30, 39, 48, 57, 66, 75], [4, 13, 22, 31, 40, 49, 58, 67, 76],
     [5, 14, 23, 32, 41, 50, 59, 68, 77], [6, 15, 24, 33, 42, 51, 60, 69, 78],
     [7, 16, 25, 34, 43, 52, 61, 70, 79], [8, 17, 26, 35, 44, 53, 62, 71, 80],
     [0, 1, 2, 9, 10, 11, 18, 19, 20], [3, 4, 5, 12, 13, 14, 21, 22, 23],
     [6, 7, 8, 15, 16, 17, 24, 25, 26], [27, 28, 29, 36, 37, 38, 45, 46, 47],
     [30, 31, 32, 39, 40, 41, 48, 49, 50], [33, 34, 35, 42, 43, 44, 51, 52, 53],
     [54, 55, 56, 63, 64, 65, 72, 73, 74], [57, 58, 59, 66, 67, 68, 75, 76, 77],
     [60, 61, 62, 69, 70, 71, 78, 79, 80]]"
  by code_simp

lemma groups_distinct: "g \<in> set groups \<Longrightarrow> distinct g"
  unfolding groups_eval by auto

lemma groups_in_range: "g \<in> set groups \<Longrightarrow> i \<in> set g \<Longrightarrow> i < 81"
  unfolding groups_eval by auto

lemma groups_cover:
  assumes "i < 81"
  shows "\<exists>g\<in>set groups. i \<in> set g"
proof -
  let ?g = "map (\<lambda>c. 9 * (i div 9) + c) [0..<9]"
  have "i div 9 < 9" using assms by simp
  then have "i div 9 \<in> set [0..<9]" by simp
  then have "?g \<in> set row_groups" unfolding row_groups_def set_map by (rule imageI)
  then have "?g \<in> set groups" by (simp add: groups_def)
  moreover have "i = 9 * (i div 9) + i mod 9" by simp
  then have "i \<in> (\<lambda>c. 9 * (i div 9) + c) ` {0..<9}"
    by (intro image_eqI [where x = "i mod 9"]) simp_all
  then have "i \<in> set ?g" by simp
  ultimately show ?thesis by blast
qed

subsection \<open>Writing a group's tiles back to the board\<close>

lemma length_write_group [simp]: "length (write_group g ts b) = length b"
  by (induction g ts b rule: write_group.induct) simp_all

lemma write_group_other: "i \<notin> set g \<Longrightarrow> write_group g ts b ! i = b ! i"
  by (induction g ts b rule: write_group.induct) auto

lemma write_group_member:
  "distinct g \<Longrightarrow> length ts = length g \<Longrightarrow> \<forall>i\<in>set g. i < length b \<Longrightarrow> k < length g \<Longrightarrow>
   write_group g ts b ! (g ! k) = ts ! k"
proof (induction g ts b arbitrary: k rule: write_group.induct)
  case (1 i g t ts b)
  show ?case
  proof (cases k)
    case 0
    with "1.prems" show ?thesis by (simp add: write_group_other)
  next
    case (Suc k')
    with "1.prems" "1.IH" [of k'] show ?thesis by simp
  qed
qed simp_all

lemma group_tiles_write_group:
  assumes "distinct g" "length ts = length g" "\<forall>i\<in>set g. i < length b"
  shows "group_tiles (write_group g ts b) g = ts"
proof (rule nth_equalityI)
  show "length (group_tiles (write_group g ts b) g) = length ts"
    using assms(2) by (simp add: group_tiles_def)
next
  fix k assume "k < length (group_tiles (write_group g ts b) g)"
  then have k: "k < length g" by (simp add: group_tiles_def)
  then show "group_tiles (write_group g ts b) g ! k = ts ! k"
    using write_group_member [OF assms k] by (simp add: group_tiles_def)
qed

lemma write_group_rel:
  assumes refl: "\<And>t. Q t t" and "distinct g" and range: "\<forall>i\<in>set g. i < length b"
    and rel: "list_all2 Q (group_tiles b g) ts"
  shows "list_all2 Q b (write_group g ts b)"
proof (rule list_all2_all_nthI)
  show "length b = length (write_group g ts b)" by simp
next
  fix i assume i: "i < length b"
  from rel have len: "length ts = length g"
    by (simp add: list_all2_lengthD [symmetric] group_tiles_def)
  show "Q (b ! i) (write_group g ts b ! i)"
  proof (cases "i \<in> set g")
    case True
    then obtain k where k: "k < length g" "g ! k = i" by (auto simp: in_set_conv_nth)
    from rel k(1) have "Q (group_tiles b g ! k) (ts ! k)"
      by (simp add: list_all2_conv_all_nth group_tiles_def)
    then have "Q (b ! i) (ts ! k)" using k by (simp add: group_tiles_def)
    moreover have "write_group g ts b ! i = ts ! k"
      using write_group_member [OF assms(2) len range k(1)] k(2) by simp
    ultimately show ?thesis by simp
  next
    case False
    then show ?thesis by (simp add: write_group_other refl)
  qed
qed

subsection \<open>Relations kept by the loop over the groups\<close>

lemma naked_single_loop_eq:
  "naked_single_loop gs b c = groups_loop naked_single_constrain gs b c"
  by (induction gs arbitrary: b c) (simp_all split: prod.splits)

lemma hidden_single_loop_eq:
  "hidden_single_loop order gs b c = groups_loop (hidden_single_constrain order) gs b c"
  by (induction gs arbitrary: b c) (simp_all split: prod.splits)

lemma closed_relD:
  assumes "closed_rel Q"
  shows "Q t t"
    and "Q a b \<Longrightarrow> Q b c \<Longrightarrow> Q a c"
    and "tile_value t = UNKNOWN \<Longrightarrow> UNKNOWN \<notin> used \<Longrightarrow> Q t (t\<lparr>candidates := candidates t - used\<rparr>)"
    and "v \<in> candidates t \<Longrightarrow> v \<in> set CHOICES \<Longrightarrow> Q t (set_value v t)"
  using assms unfolding closed_rel_def by blast+

lemma closed_rel_list_refl: "closed_rel Q \<Longrightarrow> list_all2 Q ts ts"
  by (simp add: list_all2_refl closed_relD(1))

lemma closed_rel_list_trans:
  "closed_rel Q \<Longrightarrow> list_all2 Q a b \<Longrightarrow> list_all2 Q b c \<Longrightarrow> list_all2 Q a c"
  using closed_relD(2) [of Q] by (rule list_all2_trans)

lemma groups_loop_length:
  "groups_loop f gs b c = (ch, b') \<Longrightarrow> length b' = length b"
proof (induction gs arbitrary: b c)
  case Nil
  then show ?case by simp
next
  case (Cons g gs)
  obtain c1 ts1 where f: "f (group_tiles b g) = (c1, ts1)" by (cases "f (group_tiles b g)")
  with Cons.prems have "groups_loop f gs (write_group g ts1 b) (c1 \<or> c) = (ch, b')" by simp
  from Cons.IH [OF this] show ?case by simp
qed

lemma groups_loop_rel:
  assumes refl: "\<And>t. Q t t" and trans: "\<And>a b c. Q a b \<Longrightarrow> Q b c \<Longrightarrow> Q a c"
    and f: "\<And>ts c ts'. f ts = (c, ts') \<Longrightarrow> list_all2 Q ts ts'"
  shows "\<forall>g\<in>set gs. distinct g \<and> (\<forall>i\<in>set g. i < length b) \<Longrightarrow>
         groups_loop f gs b c = (ch, b') \<Longrightarrow> list_all2 Q b b'"
proof (induction gs arbitrary: b c)
  case Nil
  then show ?case by (simp add: list_all2_refl refl)
next
  case (Cons g gs)
  obtain c1 ts1 where f1: "f (group_tiles b g) = (c1, ts1)" by (cases "f (group_tiles b g)")
  let ?b1 = "write_group g ts1 b"
  from Cons.prems(1) have g: "distinct g" "\<forall>i\<in>set g. i < length b" by simp_all
  have step: "list_all2 Q b ?b1"
    using refl g f [OF f1] by (rule write_group_rel)
  from Cons.prems(1) have gs: "\<forall>g\<in>set gs. distinct g \<and> (\<forall>i\<in>set g. i < length ?b1)" by simp
  from Cons.prems(2) f1 have "groups_loop f gs ?b1 (c1 \<or> c) = (ch, b')" by simp
  from Cons.IH [OF gs this] have "list_all2 Q ?b1 b'" .
  with step show ?case using trans by (rule list_all2_trans [rotated])
qed

subsection \<open>The weight of a board\<close>

lemma lighter_weight_le: "list_all2 lighter b b' \<Longrightarrow> board_weight b' \<le> board_weight b"
  unfolding board_weight_def
  by (induction rule: list_all2_induct) (auto simp: lighter_def)

lemma lighter_weight_less:
  "list_all2 lighter b b' \<Longrightarrow> b' \<noteq> b \<Longrightarrow> board_weight b' < board_weight b"
proof (induction rule: list_all2_induct)
  case Nil
  then show ?case by simp
next
  case (Cons t ts t' ts')
  have le: "board_weight ts' \<le> board_weight ts" using Cons.hyps(2) by (rule lighter_weight_le)
  show ?case
  proof (cases "t' = t")
    case True
    with Cons.prems have "ts' \<noteq> ts" by simp
    from Cons.IH [OF this] True show ?thesis by (simp add: board_weight_def)
  next
    case False
    with Cons.hyps(1) have "weight t' < weight t" by (simp add: lighter_def)
    with le show ?thesis by (simp add: board_weight_def)
  qed
qed

lemma groups_loop_changed:
  assumes f: "\<And>ts c ts'. f ts = (c, ts') \<Longrightarrow> list_all2 lighter ts ts'"
    and f_changed: "\<And>ts ts'. f ts = (True, ts') \<Longrightarrow> ts' \<noteq> ts"
    and lighter: "closed_rel lighter"
  shows "\<forall>g\<in>set gs. distinct g \<and> (\<forall>i\<in>set g. i < length b) \<Longrightarrow>
         groups_loop f gs b c = (ch, b') \<Longrightarrow> ch \<Longrightarrow> c \<or> board_weight b' < board_weight b"
proof (induction gs arbitrary: b c)
  case Nil
  then show ?case by simp
next
  case (Cons g gs)
  obtain c1 ts1 where f1: "f (group_tiles b g) = (c1, ts1)" by (cases "f (group_tiles b g)")
  let ?b1 = "write_group g ts1 b"
  from Cons.prems(1) have g: "distinct g" "\<forall>i\<in>set g. i < length b" by simp_all
  have rel1: "list_all2 lighter (group_tiles b g) ts1" using f1 by (rule f)
  have step: "list_all2 lighter b ?b1"
    using closed_relD(1) [OF lighter] g rel1 by (rule write_group_rel)
  have len1: "length ts1 = length g"
    using rel1 by (simp add: list_all2_lengthD [symmetric] group_tiles_def)
  from Cons.prems(1) have gs: "\<forall>g\<in>set gs. distinct g \<and> (\<forall>i\<in>set g. i < length ?b1)" by simp
  from Cons.prems(2) f1 have run: "groups_loop f gs ?b1 (c1 \<or> c) = (ch, b')" by simp
  have rest: "list_all2 lighter ?b1 b'"
    using closed_relD(1) [OF lighter] closed_relD(2) [OF lighter] f gs run
    by (rule groups_loop_rel)
  have le: "board_weight b' \<le> board_weight ?b1" using rest by (rule lighter_weight_le)
  have le1: "board_weight ?b1 \<le> board_weight b" using step by (rule lighter_weight_le)
  from Cons.IH [OF gs run Cons.prems(3)]
  consider "c" | "c1" | "board_weight b' < board_weight ?b1" by blast
  then show ?case
  proof cases
    case 1
    then show ?thesis by simp
  next
    case 2
    with f1 have "ts1 \<noteq> group_tiles b g" by (simp add: f_changed)
    moreover have "group_tiles ?b1 g = ts1" using g(1) len1 g(2) by (rule group_tiles_write_group)
    ultimately have "?b1 \<noteq> b" by auto
    with step have "board_weight ?b1 < board_weight b" by (rule lighter_weight_less)
    with le show ?thesis by simp
  next
    case 3
    with le1 show ?thesis by simp
  qed
qed

subsection \<open>Every tile operation lowers the weight and narrows the tile\<close>

lemma UNKNOWN_not_choice: "UNKNOWN \<notin> set CHOICES"
  by (simp add: UNKNOWN_def CHOICES_def)

lemma set_value_same: "tile_value t = v \<Longrightarrow> candidates t = {v} \<Longrightarrow> set_value v t = t"
  by (simp add: set_value_def)

lemma weight_set_value: "weight (set_value v t) = 1"
  by (simp add: weight_def set_value_def)

lemma lighter_eliminate:
  assumes "tile_value t = UNKNOWN" and "UNKNOWN \<notin> used"
  shows "lighter t (t\<lparr>candidates := candidates t - used\<rparr>)"
proof (cases "candidates t - used = candidates t")
  case True
  then show ?thesis by (simp add: lighter_def)
next
  case False
  then have "candidates t - used \<subset> candidates t" by blast
  then have less: "card (candidates t - used) < card (candidates t)"
    by (intro psubset_card_mono) simp_all
  have "candidates t \<noteq> {tile_value t}"
  proof
    assume "candidates t = {tile_value t}"
    with assms have "candidates t - used = candidates t" by auto
    with False show False by simp
  qed
  with less show ?thesis by (simp add: lighter_def weight_def)
qed

lemma lighter_set_value:
  assumes "v \<in> candidates t"
  shows "lighter t (set_value v t)"
proof (cases "tile_value t = v \<and> candidates t = {v}")
  case True
  then show ?thesis by (simp add: lighter_def set_value_same)
next
  case False
  have "1 < weight t"
  proof (cases "candidates t = {v}")
    case True
    with False have "candidates t \<noteq> {tile_value t}" by auto
    with True show ?thesis by (simp add: weight_def)
  next
    case ne: False
    have "{v} \<subset> candidates t" using assms ne by blast
    then have "card {v} < card (candidates t)" by (intro psubset_card_mono) simp_all
    then show ?thesis by (simp add: weight_def)
  qed
  then show ?thesis by (simp add: lighter_def weight_set_value)
qed

lemma closed_rel_lighter: "closed_rel lighter"
  unfolding closed_rel_def
proof (intro conjI allI impI)
  fix t show "lighter t t" by (simp add: lighter_def)
next
  fix a b c assume "lighter a b" "lighter b c"
  then show "lighter a c" by (auto simp: lighter_def)
next
  fix t :: tile and used assume "tile_value t = UNKNOWN" "UNKNOWN \<notin> used"
  then show "lighter t (t\<lparr>candidates := candidates t - used\<rparr>)" by (rule lighter_eliminate)
next
  fix t :: tile and v assume "v \<in> candidates t"
  then show "lighter t (set_value v t)" by (rule lighter_set_value)
qed

lemma closed_rel_narrows: "closed_rel narrows"
  unfolding closed_rel_def
proof (intro conjI allI impI)
  fix t show "narrows t t" by (simp add: narrows_def)
next
  fix a b c assume "narrows a b" "narrows b c"
  then show "narrows a c" unfolding narrows_def by auto
next
  fix t :: tile and used assume "tile_value t = UNKNOWN" "UNKNOWN \<notin> used"
  then show "narrows t (t\<lparr>candidates := candidates t - used\<rparr>)"
    unfolding narrows_def tile_ok_def by auto
next
  fix t :: tile and v assume v: "v \<in> candidates t" "v \<in> set CHOICES"
  show "narrows t (set_value v t)"
    unfolding narrows_def
  proof (intro impI conjI)
    assume ok: "tile_ok t"
    show "tile_ok (set_value v t)" using v(2) by (simp add: tile_ok_def set_value_def)
    show "candidates (set_value v t) \<subseteq> candidates t" using v(1) by (simp add: set_value_def)
    assume "tile_value t \<noteq> UNKNOWN"
    with ok have "candidates t = {tile_value t}" by (simp add: tile_ok_def)
    with v(1) have "tile_value t = v" "candidates t = {v}" by auto
    then show "set_value v t = t" by (rule set_value_same)
  qed
qed

subsection \<open>The two tactics on a group\<close>

lemma eliminate_tiles_rel:
  assumes refl: "\<And>t. Q t t"
    and el: "\<And>t. tile_value t = UNKNOWN \<Longrightarrow> Q t (t\<lparr>candidates := candidates t - used\<rparr>)"
  shows "eliminate_tiles used ts c = (ch, ts') \<Longrightarrow> list_all2 Q ts ts'"
proof (induction ts arbitrary: c ch ts')
  case Nil
  then show ?case by simp
next
  case (Cons t ts)
  show ?case
  proof (cases "tile_value t = UNKNOWN")
    case True
    obtain ch1 ts1 where rest:
      "eliminate_tiles used ts (candidates t - used \<noteq> candidates t \<or> c) = (ch1, ts1)"
      by (cases "eliminate_tiles used ts (candidates t - used \<noteq> candidates t \<or> c)")
    with Cons.prems True have "ts' = t\<lparr>candidates := candidates t - used\<rparr> # ts1"
      by (simp add: eliminate_def)
    with Cons.IH [OF rest] el [OF True] show ?thesis by simp
  next
    case False
    obtain ch1 ts1 where rest: "eliminate_tiles used ts c = (ch1, ts1)"
      by (cases "eliminate_tiles used ts c")
    with Cons.prems False have "ts' = t # ts1" by simp
    with Cons.IH [OF rest] refl show ?thesis by simp
  qed
qed

lemma eliminate_tiles_changed:
  "eliminate_tiles used ts c = (ch, ts') \<Longrightarrow> ch \<Longrightarrow> c \<or> ts' \<noteq> ts"
proof (induction ts arbitrary: c ch ts')
  case Nil
  then show ?case by simp
next
  case (Cons t ts)
  show ?case
  proof (cases "tile_value t = UNKNOWN")
    case True
    let ?c1 = "candidates t - used \<noteq> candidates t"
    obtain ch1 ts1 where rest: "eliminate_tiles used ts (?c1 \<or> c) = (ch1, ts1)"
      by (cases "eliminate_tiles used ts (?c1 \<or> c)")
    with Cons.prems True have eq: "ts' = t\<lparr>candidates := candidates t - used\<rparr> # ts1" "ch1 = ch"
      by (simp_all add: eliminate_def)
    from Cons.IH [OF rest] eq(2) Cons.prems(2) have "?c1 \<or> c \<or> ts1 \<noteq> ts" by simp
    moreover have "?c1 \<Longrightarrow> t\<lparr>candidates := candidates t - used\<rparr> \<noteq> t"
    proof
      assume "?c1" "t\<lparr>candidates := candidates t - used\<rparr> = t"
      then have "candidates (t\<lparr>candidates := candidates t - used\<rparr>) = candidates t" by simp
      with \<open>?c1\<close> show False by simp
    qed
    ultimately show ?thesis using eq(1) by auto
  next
    case False
    obtain ch1 ts1 where rest: "eliminate_tiles used ts c = (ch1, ts1)"
      by (cases "eliminate_tiles used ts c")
    with Cons.prems False have eq: "ts' = t # ts1" "ch1 = ch" by simp_all
    from Cons.IH [OF rest] eq Cons.prems(2) show ?thesis by simp
  qed
qed

lemma assigned_values_known:
  "UNKNOWN \<notin> set (map tile_value (filter (\<lambda>t. tile_value t \<noteq> UNKNOWN) ts))"
  by auto

lemma naked_single_constrain_rel:
  assumes "closed_rel Q" and "naked_single_constrain ts = (c, ts')"
  shows "list_all2 Q ts ts'"
proof -
  let ?used = "set (map tile_value (filter (\<lambda>t. tile_value t \<noteq> UNKNOWN) ts))"
  from assms(2) have run: "eliminate_tiles ?used ts False = (c, ts')"
    by (simp add: naked_single_constrain_def Let_def)
  have "\<And>t. tile_value t = UNKNOWN \<Longrightarrow> Q t (t\<lparr>candidates := candidates t - ?used\<rparr>)"
    using closed_relD(3) [OF assms(1) _ assigned_values_known] .
  with closed_relD(1) [OF assms(1)] show ?thesis using run by (rule eliminate_tiles_rel)
qed

lemma naked_single_constrain_changed:
  assumes "naked_single_constrain ts = (True, ts')"
  shows "ts' \<noteq> ts"
proof -
  let ?used = "set (map tile_value (filter (\<lambda>t. tile_value t \<noteq> UNKNOWN) ts))"
  from assms have run: "eliminate_tiles ?used ts False = (True, ts')"
    by (simp add: naked_single_constrain_def Let_def)
  from eliminate_tiles_changed [OF run] show ?thesis by simp
qed

lemma naked_single_constrain_values:
  assumes "naked_single_constrain ts = (c, ts')"
  shows "list_all2 same_value ts ts'"
proof -
  let ?used = "set (map tile_value (filter (\<lambda>t. tile_value t \<noteq> UNKNOWN) ts))"
  from assms have run: "eliminate_tiles ?used ts False = (c, ts')"
    by (simp add: naked_single_constrain_def Let_def)
  show ?thesis
    by (rule eliminate_tiles_rel [OF _ _ run]) (simp_all add: same_value_def)
qed

lemma list_all2_update_right:
  assumes "\<And>t. Q t t" and "Q (ts ! k) x"
  shows "list_all2 Q ts (ts[k := x])"
proof (rule list_all2_all_nthI)
  show "length ts = length (ts[k := x])" by simp
next
  fix i assume "i < length ts"
  then show "Q (ts ! i) (ts[k := x] ! i)"
    using assms by (cases "i = k") simp_all
qed

lemma hidden_value_rel:
  assumes Q: "closed_rel Q" and d: "d \<in> set CHOICES"
    and run: "hidden_value d (ts, c) = (ts', c')"
  shows "list_all2 Q ts ts'"
proof (cases rule: hidden_value_cases [of d ts c])
  case (assign k)
  from assign(1) have k: "d \<in> candidates (ts ! k)"
    by (simp add: filter_upt_single could_be_def)
  from assign(2) run have "ts' = ts[k := set_value d (ts ! k)]" by simp
  moreover have "Q (ts ! k) (set_value d (ts ! k))" using Q k d by (rule closed_relD(4))
  ultimately show ?thesis using closed_relD(1) [OF Q] by (simp add: list_all2_update_right)
next
  case skip
  with run show ?thesis by (simp add: closed_rel_list_refl [OF Q])
qed

lemma fold_hidden_value_rel:
  assumes Q: "closed_rel Q"
  shows "set ds \<subseteq> set CHOICES \<Longrightarrow> fold hidden_value ds (ts, c) = (ts', c') \<Longrightarrow>
         list_all2 Q ts ts'"
proof (induction ds arbitrary: ts c)
  case Nil
  then show ?case by (simp add: closed_rel_list_refl [OF Q])
next
  case (Cons d ds)
  obtain ts1 c1 where step: "hidden_value d (ts, c) = (ts1, c1)" by (cases "hidden_value d (ts, c)")
  from Cons.prems(1) have d: "d \<in> set CHOICES" and ds: "set ds \<subseteq> set CHOICES" by simp_all
  have one: "list_all2 Q ts ts1" using Q d step by (rule hidden_value_rel)
  from Cons.prems(2) step have "fold hidden_value ds (ts1, c1) = (ts', c')" by simp
  from Cons.IH [OF ds this] have "list_all2 Q ts1 ts'" .
  with one show ?case by (rule closed_rel_list_trans [OF Q])
qed

lemma enumerated_leftovers:
  "set (enumerate_set order (leftovers ts)) \<subseteq> set CHOICES - tile_value ` set ts"
  by (auto simp: enumerate_set_def leftovers_eq)

lemma hidden_single_constrain_rel:
  assumes Q: "closed_rel Q" and run: "hidden_single_constrain order ts = (c, ts')"
  shows "list_all2 Q ts ts'"
proof -
  from run have "fold hidden_value (enumerate_set order (leftovers ts)) (ts, False) = (ts', c)"
    by (simp add: hidden_single_constrain_def split: prod.splits)
  moreover have "set (enumerate_set order (leftovers ts)) \<subseteq> set CHOICES"
    using enumerated_leftovers [of order ts] by blast
  ultimately show ?thesis using Q by (intro fold_hidden_value_rel [OF Q])
qed

lemma fold_hidden_value_changed:
  assumes start: "list_all2 lighter ts0 ts"
    and ds: "set ds \<subseteq> set CHOICES - tile_value ` set ts0"
    and run: "fold hidden_value ds (ts, c) = (ts', c')"
    and before: "c \<longrightarrow> board_weight ts < board_weight ts0"
  shows "c' \<longrightarrow> board_weight ts' < board_weight ts0"
  using start ds run before
proof (induction ds arbitrary: ts c)
  case Nil
  then show ?case by simp
next
  case (Cons d ds)
  obtain ts1 c1 where step: "hidden_value d (ts, c) = (ts1, c1)" by (cases "hidden_value d (ts, c)")
  from Cons.prems(2) have d: "d \<in> set CHOICES" "d \<notin> tile_value ` set ts0"
    and ds: "set ds \<subseteq> set CHOICES - tile_value ` set ts0" by auto
  have one: "list_all2 lighter ts ts1" using closed_rel_lighter d(1) step by (rule hidden_value_rel)
  with Cons.prems(1) have rel1: "list_all2 lighter ts0 ts1"
    by (rule closed_rel_list_trans [OF closed_rel_lighter])
  have len: "length ts = length ts0" using Cons.prems(1) by (simp add: list_all2_lengthD)
  have c1: "c1 \<longrightarrow> board_weight ts1 < board_weight ts0"
  proof (cases rule: hidden_value_cases [of d ts c])
    case (assign k)
    from assign(1) have k: "k < length ts" by (simp add: filter_upt_single)
    from assign(2) step have ts1: "ts1 = ts[k := set_value d (ts ! k)]" by simp
    have "tile_value (ts1 ! k) = d" using k by (simp add: ts1 set_value_def)
    moreover have "tile_value (ts0 ! k) \<noteq> d"
    proof
      assume "tile_value (ts0 ! k) = d"
      moreover have "ts0 ! k \<in> set ts0" using k len by simp
      ultimately have "d \<in> tile_value ` set ts0" by force
      with d(2) show False by simp
    qed
    ultimately have "ts1 \<noteq> ts0" by auto
    with rel1 have "board_weight ts1 < board_weight ts0" by (rule lighter_weight_less)
    then show ?thesis by simp
  next
    case skip
    with step Cons.prems(4) show ?thesis by simp
  qed
  from Cons.prems(3) step have "fold hidden_value ds (ts1, c1) = (ts', c')" by simp
  from Cons.IH [OF rel1 ds this c1] show ?case .
qed

lemma hidden_single_constrain_changed:
  assumes "hidden_single_constrain order ts = (True, ts')"
  shows "ts' \<noteq> ts"
proof -
  from assms have run: "fold hidden_value (enumerate_set order (leftovers ts)) (ts, False) = (ts', True)"
    by (simp add: hidden_single_constrain_def split: prod.splits)
  have "list_all2 lighter ts ts" by (rule closed_rel_list_refl [OF closed_rel_lighter])
  from fold_hidden_value_changed [OF this enumerated_leftovers run]
  have "board_weight ts' < board_weight ts" by simp
  then show ?thesis by auto
qed

subsection \<open>The two tactics on the board\<close>

lemma groups_ok:
  assumes "length b = 81"
  shows "\<forall>g\<in>set groups. distinct g \<and> (\<forall>i\<in>set g. i < length b)"
  using assms groups_distinct groups_in_range by auto

lemma naked_single_length: "naked_single b = (ch, b1) \<Longrightarrow> length b1 = length b"
  unfolding naked_single_def naked_single_loop_eq by (rule groups_loop_length)

lemma hidden_single_length: "hidden_single order b = (ch, b1) \<Longrightarrow> length b1 = length b"
  unfolding hidden_single_def hidden_single_loop_eq by (rule groups_loop_length)

lemma naked_single_rel:
  assumes Q: "closed_rel Q" and len: "length b = 81" and run: "naked_single b = (ch, b1)"
  shows "list_all2 Q b b1"
  using closed_relD(1) [OF Q] closed_relD(2) [OF Q] naked_single_constrain_rel [OF Q]
    groups_ok [OF len] run [unfolded naked_single_def naked_single_loop_eq]
  by (rule groups_loop_rel)

lemma hidden_single_rel:
  assumes Q: "closed_rel Q" and len: "length b = 81" and run: "hidden_single order b = (ch, b1)"
  shows "list_all2 Q b b1"
  using closed_relD(1) [OF Q] closed_relD(2) [OF Q] hidden_single_constrain_rel [OF Q]
    groups_ok [OF len] run [unfolded hidden_single_def hidden_single_loop_eq]
  by (rule groups_loop_rel)

lemma naked_single_values:
  assumes len: "length b = 81" and run: "naked_single b = (ch, b1)"
  shows "as_list b1 = as_list b"
proof -
  have "list_all2 same_value b b1"
  proof (rule groups_loop_rel [OF _ _ _ groups_ok [OF len]
        run [unfolded naked_single_def naked_single_loop_eq]])
    fix t show "same_value t t" by (simp add: same_value_def)
  next
    fix a b c assume "same_value a b" "same_value b c"
    then show "same_value a c" by (simp add: same_value_def)
  next
    fix ts c ts' assume "naked_single_constrain ts = (c, ts')"
    then show "list_all2 same_value ts ts'" by (rule naked_single_constrain_values)
  qed
  then have "list_all2 (\<lambda>t t'. tile_value t' = tile_value t) b b1"
    by (simp add: same_value_def [abs_def])
  then have "map tile_value b1 = map tile_value b"
    by (induction rule: list_all2_induct) simp_all
  then show ?thesis by (simp add: as_list_def)
qed

lemma naked_single_changed:
  assumes len: "length b = 81" and run: "naked_single b = (True, b1)"
  shows "board_weight b1 < board_weight b"
  using groups_loop_changed [OF naked_single_constrain_rel [OF closed_rel_lighter]
      naked_single_constrain_changed closed_rel_lighter groups_ok [OF len]
      run [unfolded naked_single_def naked_single_loop_eq]]
  by simp

lemma hidden_single_changed:
  assumes len: "length b = 81" and run: "hidden_single order b = (True, b1)"
  shows "board_weight b1 < board_weight b"
  using groups_loop_changed [OF hidden_single_constrain_rel [OF closed_rel_lighter]
      hidden_single_constrain_changed closed_rel_lighter groups_ok [OF len]
      run [unfolded hidden_single_def hidden_single_loop_eq]]
  by simp

lemma closed_rel_progress: "closed_rel progress"
  using closed_rel_lighter closed_rel_narrows
  unfolding closed_rel_def progress_def by blast

lemma progress_lighter: "list_all2 progress b b' \<Longrightarrow> list_all2 lighter b b'"
  by (erule list_all2_mono) (simp add: progress_def)

lemma progress_narrows: "list_all2 progress b b' \<Longrightarrow> list_all2 narrows b b'"
  by (erule list_all2_mono) (simp add: progress_def)

subsection \<open>A tactic that reports no change has changed nothing\<close>

lemma write_group_same:
  assumes "distinct g" "\<forall>i\<in>set g. i < length b"
  shows "write_group g (group_tiles b g) b = b"
proof (rule nth_equalityI)
  show "length (write_group g (group_tiles b g) b) = length b" by simp
next
  fix i assume "i < length (write_group g (group_tiles b g) b)"
  show "write_group g (group_tiles b g) b ! i = b ! i"
  proof (cases "i \<in> set g")
    case True
    then obtain k where k: "k < length g" "g ! k = i" by (auto simp: in_set_conv_nth)
    have "length (group_tiles b g) = length g" by (simp add: group_tiles_def)
    from write_group_member [OF assms(1) this assms(2) k(1)] k show ?thesis
      by (simp add: group_tiles_def)
  next
    case False
    then show ?thesis by (rule write_group_other)
  qed
qed

lemma groups_loop_unchanged:
  assumes f: "\<And>ts ts'. f ts = (False, ts') \<Longrightarrow> ts' = ts"
  shows "\<forall>g\<in>set gs. distinct g \<and> (\<forall>i\<in>set g. i < length b) \<Longrightarrow>
         groups_loop f gs b c = (False, b') \<Longrightarrow> b' = b"
proof (induction gs arbitrary: b c)
  case Nil
  then show ?case by simp
next
  case (Cons g gs)
  obtain c1 ts1 where f1: "f (group_tiles b g) = (c1, ts1)" by (cases "f (group_tiles b g)")
  let ?b1 = "write_group g ts1 b"
  from Cons.prems(1) have g: "distinct g" "\<forall>i\<in>set g. i < length b" by simp_all
  from Cons.prems(1) have gs: "\<forall>g\<in>set gs. distinct g \<and> (\<forall>i\<in>set g. i < length ?b1)" by simp
  from Cons.prems(2) f1 have run: "groups_loop f gs ?b1 (c1 \<or> c) = (False, b')" by simp
  have mono: "\<And>gs b c b'. groups_loop f gs b c = (False, b') \<Longrightarrow> \<not> c"
  proof -
    fix gs b c b' show "groups_loop f gs b c = (False, b') \<Longrightarrow> \<not> c"
      by (induction gs arbitrary: b c) (auto split: prod.splits)
  qed
  from mono [OF run] have "\<not> c1" by simp
  with f1 have "ts1 = group_tiles b g" by (simp add: f)
  then have "?b1 = b" using g by (simp add: write_group_same)
  with Cons.IH [OF gs run] show ?case by simp
qed

lemma eliminate_tiles_unchanged:
  "eliminate_tiles used ts c = (False, ts') \<Longrightarrow> ts' = ts \<and> \<not> c"
proof (induction ts arbitrary: c ts')
  case Nil
  then show ?case by simp
next
  case (Cons t ts)
  show ?case
  proof (cases "tile_value t = UNKNOWN")
    case True
    let ?c1 = "candidates t - used \<noteq> candidates t"
    obtain ch1 ts1 where rest: "eliminate_tiles used ts (?c1 \<or> c) = (ch1, ts1)"
      by (cases "eliminate_tiles used ts (?c1 \<or> c)")
    with Cons.prems True have eq: "ts' = t\<lparr>candidates := candidates t - used\<rparr> # ts1" "ch1 = False"
      by (simp_all add: eliminate_def)
    from Cons.IH [OF rest [unfolded eq(2)]] have "ts1 = ts" "\<not> ?c1" "\<not> c" by simp_all
    with eq(1) show ?thesis by simp
  next
    case False
    obtain ch1 ts1 where rest: "eliminate_tiles used ts c = (ch1, ts1)"
      by (cases "eliminate_tiles used ts c")
    with Cons.prems False have eq: "ts' = t # ts1" "ch1 = False" by simp_all
    from Cons.IH [OF rest [unfolded eq(2)]] eq(1) show ?thesis by simp
  qed
qed

lemma naked_single_constrain_unchanged:
  "naked_single_constrain ts = (False, ts') \<Longrightarrow> ts' = ts"
  by (simp add: naked_single_constrain_def Let_def eliminate_tiles_unchanged)

lemma fold_hidden_value_unchanged:
  "fold hidden_value ds (ts, c) = (ts', False) \<Longrightarrow> ts' = ts \<and> \<not> c"
proof (induction ds arbitrary: ts c)
  case Nil
  then show ?case by simp
next
  case (Cons d ds)
  show ?case
  proof (cases rule: hidden_value_cases [of d ts c])
    case (assign k)
    with Cons.prems have "fold hidden_value ds (ts[k := set_value d (ts ! k)], True) = (ts', False)"
      by simp
    from Cons.IH [OF this] show ?thesis by simp
  next
    case skip
    with Cons.prems have "fold hidden_value ds (ts, c) = (ts', False)" by simp
    from Cons.IH [OF this] show ?thesis .
  qed
qed

lemma hidden_single_constrain_unchanged:
  "hidden_single_constrain order ts = (False, ts') \<Longrightarrow> ts' = ts"
  by (auto simp: hidden_single_constrain_def split: prod.splits dest: fold_hidden_value_unchanged)

lemma naked_single_unchanged:
  assumes "length b = 81" and "naked_single b = (False, b1)"
  shows "b1 = b"
  using naked_single_constrain_unchanged groups_ok [OF assms(1)]
    assms(2) [unfolded naked_single_def naked_single_loop_eq]
  by (rule groups_loop_unchanged)

lemma hidden_single_unchanged:
  assumes "length b = 81" and "hidden_single order b = (False, b1)"
  shows "b1 = b"
  using hidden_single_constrain_unchanged groups_ok [OF assms(1)]
    assms(2) [unfolded hidden_single_def hidden_single_loop_eq]
  by (rule groups_loop_unchanged)

subsection \<open>The propagation loop returns\<close>

lemma propagate_returns:
  "length b = 81 \<Longrightarrow>
   \<exists>b'. propagate order b = Some b' \<and> length b' = 81 \<and> list_all2 progress b b'"
proof (induction "board_weight b" arbitrary: b rule: less_induct)
  case less
  note len = \<open>length b = 81\<close>
  obtain ch b1 where n: "naked_single b = (ch, b1)" by (cases "naked_single b")
  have l1: "length b1 = 81" using naked_single_length [OF n] len by simp
  have r1: "list_all2 progress b b1" using closed_rel_progress len n by (rule naked_single_rel)
  show ?case
  proof (cases "board_is_solved b1 \<or> \<not> board_is_consistent b1")
    case True
    then have "propagate order b = Some b1"
      by (subst propagate.simps) (simp add: n)
    with l1 r1 show ?thesis by simp
  next
    case stay: False
    obtain ch2 b2 where h: "hidden_single order b1 = (ch2, b2)" by (cases "hidden_single order b1")
    have l2: "length b2 = 81" using hidden_single_length [OF h] l1 by simp
    have r12: "list_all2 progress b1 b2" using closed_rel_progress l1 h by (rule hidden_single_rel)
    have r2: "list_all2 progress b b2"
      using closed_rel_progress r1 r12 by (rule closed_rel_list_trans)
    show ?thesis
    proof (cases "board_is_solved b2 \<or> \<not> board_is_consistent b2")
      case True
      with stay have "propagate order b = Some b2"
        by (subst propagate.simps) (simp add: n h)
      with l2 r2 show ?thesis by simp
    next
      case stay2: False
      show ?thesis
      proof (cases "ch2 \<or> ch")
        case True
        have le1: "board_weight b1 \<le> board_weight b"
          using r1 by (intro lighter_weight_le progress_lighter)
        have le2: "board_weight b2 \<le> board_weight b1"
          using r12 by (intro lighter_weight_le progress_lighter)
        have "board_weight b2 < board_weight b"
        proof (cases ch)
          case True
          with n have "naked_single b = (True, b1)" by simp
          from naked_single_changed [OF len this] le2 show ?thesis by simp
        next
          case False
          with \<open>ch2 \<or> ch\<close> h have "hidden_single order b1 = (True, b2)" by simp
          from hidden_single_changed [OF l1 this] le1 show ?thesis by simp
        qed
        from less.hyps [OF this l2] obtain b' where
          b': "propagate order b2 = Some b'" "length b' = 81" "list_all2 progress b2 b'" by blast
        from stay stay2 True have "propagate order b = propagate order b2"
          by (subst propagate.simps) (simp add: n h)
        moreover have "list_all2 progress b b'"
          using closed_rel_progress r2 b'(3) by (rule closed_rel_list_trans)
        ultimately show ?thesis using b' by simp
      next
        case False
        with stay stay2 have "propagate order b = Some b2"
          by (subst propagate.simps) (simp add: n h)
        with l2 r2 show ?thesis by simp
      qed
    qed
  qed
qed

subsection \<open>Consistency can be lost and never regained\<close>

lemma group_is_consistent_iff:
  "group_is_consistent ts \<longleftrightarrow>
     (\<forall>t\<in>set ts. candidates t \<noteq> {}) \<and>
     distinct (filter (\<lambda>v. v \<noteq> UNKNOWN) (map tile_value ts)) \<and>
     (\<Union>t\<in>set ts. candidates t) = set CHOICES"
  unfolding group_is_consistent_def by (subst consistent_loop_iff) simp_all

lemma narrows_ok:
  assumes "list_all2 narrows ts ts'" and "list_all tile_ok ts"
  shows "list_all tile_ok ts'"
  using assms by (induction rule: list_all2_induct) (auto simp: narrows_def)

lemma narrows_nth:
  assumes "list_all2 narrows ts ts'" and "list_all tile_ok ts" and "i < length ts"
  shows "candidates (ts' ! i) \<subseteq> candidates (ts ! i)"
    and "tile_value (ts ! i) \<noteq> UNKNOWN \<Longrightarrow> ts' ! i = ts ! i"
proof -
  from assms(1,3) have n: "narrows (ts ! i) (ts' ! i)" by (simp add: list_all2_conv_all_nth)
  from assms(2,3) have ok: "tile_ok (ts ! i)" by (simp add: list_all_length)
  from n ok show "candidates (ts' ! i) \<subseteq> candidates (ts ! i)" by (simp add: narrows_def)
  from n ok show "tile_value (ts ! i) \<noteq> UNKNOWN \<Longrightarrow> ts' ! i = ts ! i" by (simp add: narrows_def)
qed

lemma group_consistent_before:
  assumes rel: "list_all2 narrows ts ts'" and ok: "list_all tile_ok ts"
    and after: "group_is_consistent ts'"
  shows "group_is_consistent ts"
proof -
  have len: "length ts' = length ts" using rel by (simp add: list_all2_lengthD)
  from after have nonempty: "\<forall>t\<in>set ts'. candidates t \<noteq> {}"
    and dist: "distinct (filter (\<lambda>v. v \<noteq> UNKNOWN) (map tile_value ts'))"
    and cover: "(\<Union>t\<in>set ts'. candidates t) = set CHOICES"
    by (simp_all add: group_is_consistent_iff)
  have 1: "\<forall>t\<in>set ts. candidates t \<noteq> {}"
  proof
    fix t assume "t \<in> set ts"
    then obtain i where i: "i < length ts" "ts ! i = t" by (auto simp: in_set_conv_nth)
    have "ts' ! i \<in> set ts'" using i(1) len by simp
    with nonempty have "candidates (ts' ! i) \<noteq> {}" by blast
    with narrows_nth(1) [OF rel ok i(1)] i(2) show "candidates t \<noteq> {}" by auto
  qed
  have 2: "distinct (filter (\<lambda>v. v \<noteq> UNKNOWN) (map tile_value ts))"
  proof (rule ccontr)
    assume "\<not> distinct (filter (\<lambda>v. v \<noteq> UNKNOWN) (map tile_value ts))"
    then obtain i j where ij: "i < j" "j < length ts" "tile_value (ts ! i) \<noteq> UNKNOWN"
        "tile_value (ts ! i) = tile_value (ts ! j)"
      unfolding not_distinct_assigned by blast
    from ij have i: "i < length ts" by simp
    have "ts' ! i = ts ! i" using rel ok i ij(3) by (rule narrows_nth(2))
    moreover have "ts' ! j = ts ! j" using rel ok ij(2) ij(3,4) by (intro narrows_nth(2)) simp_all
    ultimately have "i < j \<and> j < length ts' \<and> tile_value (ts' ! i) \<noteq> UNKNOWN \<and>
        tile_value (ts' ! i) = tile_value (ts' ! j)"
      using ij len by simp
    then have "\<not> distinct (filter (\<lambda>v. v \<noteq> UNKNOWN) (map tile_value ts'))"
      unfolding not_distinct_assigned by blast
    with dist show False by simp
  qed
  have 3: "(\<Union>t\<in>set ts. candidates t) = set CHOICES"
  proof
    show "(\<Union>t\<in>set ts. candidates t) \<subseteq> set CHOICES"
      using ok by (auto simp: list_all_iff tile_ok_def)
    show "set CHOICES \<subseteq> (\<Union>t\<in>set ts. candidates t)"
    proof
      fix d assume "d \<in> set CHOICES"
      with cover obtain t' where "t' \<in> set ts'" "d \<in> candidates t'" by blast
      then obtain i where i: "i < length ts'" "ts' ! i = t'" by (auto simp: in_set_conv_nth)
      with len have il: "i < length ts" by simp
      from narrows_nth(1) [OF rel ok il] i(2) \<open>d \<in> candidates t'\<close>
      have "d \<in> candidates (ts ! i)" by auto
      moreover have "ts ! i \<in> set ts" using il by simp
      ultimately show "d \<in> (\<Union>t\<in>set ts. candidates t)" by blast
    qed
  qed
  from 1 2 3 show ?thesis by (simp add: group_is_consistent_iff)
qed

lemma group_tiles_rel:
  assumes "list_all2 Q b b'" and "\<forall>i\<in>set g. i < length b"
  shows "list_all2 Q (group_tiles b g) (group_tiles b' g)"
  using assms unfolding group_tiles_def
  by (simp add: list_all2_conv_all_nth)

lemma group_tiles_ok:
  assumes "list_all tile_ok b" and "\<forall>i\<in>set g. i < length b"
  shows "list_all tile_ok (group_tiles b g)"
  using assms unfolding group_tiles_def by (simp add: list_all_iff all_set_conv_all_nth)

lemma board_consistent_before:
  assumes ok: "board_ok b" and rel: "list_all2 narrows b b'"
    and after: "board_is_consistent b'"
  shows "board_is_consistent b"
  unfolding board_is_consistent_def list_all_iff
proof
  fix g assume g: "g \<in> set groups"
  from ok have len: "length b = 81" and tiles: "list_all tile_ok b" by (simp_all add: board_ok_def)
  have range: "\<forall>i\<in>set g. i < length b" using groups_in_range [OF g] len by simp
  from after g have "group_is_consistent (group_tiles b' g)"
    by (simp add: board_is_consistent_def list_all_iff)
  with group_tiles_rel [OF rel range] group_tiles_ok [OF tiles range]
  show "group_is_consistent (group_tiles b g)" by (rule group_consistent_before)
qed

lemma board_ok_after:
  assumes "board_ok b" and "list_all2 narrows b b'"
  shows "board_ok b'"
  using assms narrows_ok [OF assms(2)]
  by (simp add: board_ok_def list_all2_lengthD [symmetric])

section \<open>The solver\<close>

subsection \<open>Restoring and building boards\<close>

lemma propagate_result:
  assumes "length b = 81" and "propagate order b = Some b1"
  shows "length b1 = 81" and "list_all2 progress b b1"
  using propagate_returns [OF assms(1), of order] assms(2) by auto

lemma new_tile_ok: "v = UNKNOWN \<or> v \<in> set CHOICES \<Longrightarrow> tile_ok (new_tile v)"
  by (auto simp: tile_ok_def new_tile_def)

lemma new_board_ok:
  assumes "length grid = 81" and "set grid \<subseteq> insert UNKNOWN (set CHOICES)"
  shows "board_ok (new_board grid)"
  using assms by (auto simp: board_ok_def new_board_def list_all_iff intro!: new_tile_ok)

lemma restore_tile_new: "restore_tile t v = new_tile v"
  by (simp add: restore_tile_def new_tile_def set_value_def)

lemma set_tiles_new:
  "length save \<le> length b \<Longrightarrow> set_tiles b save = new_board save"
proof (induction save arbitrary: b)
  case Nil
  then show ?case by (simp add: set_tiles_def new_board_def)
next
  case (Cons v save)
  then obtain t b' where b: "b = t # b'" by (cases b) auto
  with Cons.prems have "length save \<le> length b'" by simp
  from Cons.IH [OF this] b show ?case
    by (simp add: set_tiles_def new_board_def restore_tile_new)
qed

lemma as_list_new_board: "as_list (new_board save) = save"
proof -
  have "tile_value \<circ> new_tile = id" by (auto simp: new_tile_def)
  then show ?thesis by (simp add: as_list_def new_board_def)
qed

subsection \<open>The guess finds a tile and the search raises nothing\<close>

lemma best_tile_exists:
  assumes len: "length b = 81" and cons: "board_is_consistent b" and uns: "\<not> board_is_solved b"
  shows "\<exists>k. best_tile b = Some k"
proof -
  from uns obtain g where g: "g \<in> set groups" "\<not> group_is_complete (group_tiles b g)"
    by (auto simp: board_is_solved_def list_all_iff)
  from g(2) obtain i where i: "i \<in> set g" "tile_value (b ! i) = UNKNOWN"
    by (auto simp: group_is_complete_def group_tiles_def list_all_iff)
  have il: "i < length b" using groups_in_range [OF g(1) i(1)] len by simp
  from cons g(1) have "group_is_consistent (group_tiles b g)"
    by (simp add: board_is_consistent_def list_all_iff)
  then have "(\<Union>t\<in>set (group_tiles b g). candidates t) = set CHOICES"
    by (simp add: group_is_consistent_iff)
  moreover have "b ! i \<in> set (group_tiles b g)" using i(1) by (simp add: group_tiles_def)
  ultimately have "candidates (b ! i) \<subseteq> set CHOICES" by blast
  then have "card (candidates (b ! i)) \<le> card (set CHOICES)" by (intro card_mono) simp_all
  also have "card (set CHOICES) = 9" by (simp add: CHOICES_def)
  finally have small: "card (candidates (b ! i)) < 10" by simp
  show ?thesis
  proof (cases "best_tile b")
    case None
    from best_tile_None [OF None] il i(2) have "10 \<le> card (candidates (b ! i))" by blast
    with small show ?thesis by simp
  next
    case (Some k)
    then show ?thesis by blast
  qed
qed

lemma solve_Suc:
  assumes "propagate order b = Some b1"
  shows "solve (Suc n) order b =
     (if board_is_solved b1 then Some (Inr (True, b1))
      else if \<not> board_is_consistent b1 then Some (Inr (False, b1))
      else (case best_tile b1 of
              None \<Rightarrow> Some (Inl AttributeError)
            | Some k \<Rightarrow> guess n order (enumerate_set order (candidates (b1 ! k))) k (as_list b1) b1))"
  using assms by simp

lemma length_set_tiles: "length (set_tiles b save) = min (length b) (length save)"
  by (simp add: set_tiles_def)

lemma solve_safe:
  "length b = 81 \<longrightarrow>
     (\<forall>r. solve n order b = Some r \<longrightarrow>
        (\<exists>res b'. r = Inr (res, b') \<and> length b' = 81 \<and> (res \<longrightarrow> board_is_solved b')))"
  and guess_safe:
  "length b = 81 \<and> length save = 81 \<longrightarrow>
     (\<forall>r. guess n order cs k save b = Some r \<longrightarrow>
        (\<exists>res b'. r = Inr (res, b') \<and> length b' = 81 \<and> (res \<longrightarrow> board_is_solved b')))"
proof (induction n order b and n order cs k save b rule: solve_guess.induct)
  case (1 order b)
  then show ?case by simp
next
  case (2 n order b)
  show ?case
  proof (intro impI allI)
    fix r assume len: "length b = 81" and run: "solve (Suc n) order b = Some r"
    from run obtain b1 where p: "propagate order b = Some b1"
      by (cases "propagate order b") simp_all
    have l1: "length b1 = 81" using len p by (rule propagate_result)
    show "\<exists>res b'. r = Inr (res, b') \<and> length b' = 81 \<and> (res \<longrightarrow> board_is_solved b')"
    proof (cases "board_is_solved b1")
      case True
      with run l1 show ?thesis by (auto simp add: p)
    next
      case uns: False
      show ?thesis
      proof (cases "board_is_consistent b1")
        case False
        with uns run l1 show ?thesis by (auto simp add: p)
      next
        case True
        from best_tile_exists [OF l1 True uns] obtain k where k: "best_tile b1 = Some k" ..
        from run uns True k have g: "guess n order (enumerate_set order (candidates (b1 ! k))) k
            (as_list b1) b1 = Some r"
          by (auto simp add: p)
        have "length (as_list b1) = 81" using l1 by (simp add: as_list_def)
        moreover have "\<not> \<not> board_is_consistent b1" using True by simp
        note "2.IH" [OF p uns this k]
        ultimately show ?thesis using l1 g by simp
      qed
    qed
  qed
next
  case (3 n order k save b)
  then show ?case by auto
next
  case (4 n order cands rest k save b)
  show ?case
  proof (intro impI allI)
    fix r assume len: "length b = 81 \<and> length save = 81"
      and run: "guess n order (cands # rest) k save b = Some r"
    let ?b = "b[k := set_value cands (b ! k)]"
    from run obtain r1 where s: "solve n order ?b = Some r1"
      by (cases "solve n order ?b") simp_all
    from "4.IH"(1) len s obtain res1 b1 where r1: "r1 = Inr (res1, b1)" "length b1 = 81"
        "res1 \<longrightarrow> board_is_solved b1"
      by auto
    show "\<exists>res b'. r = Inr (res, b') \<and> length b' = 81 \<and> (res \<longrightarrow> board_is_solved b')"
    proof (cases res1)
      case True
      with run s r1 show ?thesis by auto
    next
      case False
      with run s r1 have g: "guess n order rest k save (set_tiles b1 save) = Some r" by simp
      have "length (set_tiles b1 save) = 81" using r1(2) len by (simp add: length_set_tiles)
      moreover from False have "res1 = False" by simp
      note "4.IH"(2) [OF s r1(1) refl this]
      ultimately show ?thesis using len g by simp
    qed
  qed
qed

lemma solve_true:
  "\<forall>b'. solve n order b = Some (Inr (True, b')) \<longrightarrow> board_is_solved b'"
  and guess_true:
  "\<forall>b'. guess n order cs k save b = Some (Inr (True, b')) \<longrightarrow> board_is_solved b'"
proof (induction n order b and n order cs k save b rule: solve_guess.induct)
  case (1 order b)
  then show ?case by simp
next
  case (2 n order b)
  show ?case
  proof (intro allI impI)
    fix b' assume run: "solve (Suc n) order b = Some (Inr (True, b'))"
    from run obtain b1 where p: "propagate order b = Some b1"
      by (cases "propagate order b") simp_all
    show "board_is_solved b'"
    proof (cases "board_is_solved b1")
      case True
      with run show ?thesis by (simp add: p)
    next
      case uns: False
      show ?thesis
      proof (cases "board_is_consistent b1")
        case False
        with uns run show ?thesis by (simp add: p)
      next
        case True
        show ?thesis
        proof (cases "best_tile b1")
          case None
          with uns True run show ?thesis by (simp add: p)
        next
          case (Some k)
          with run uns True have "guess n order (enumerate_set order (candidates (b1 ! k))) k
            (as_list b1) b1 = Some (Inr (True, b'))"
            by (simp add: p)
          moreover have "\<not> \<not> board_is_consistent b1" using True by simp
          note "2.IH" [OF p uns this Some]
          ultimately show ?thesis by simp
        qed
      qed
    qed
  qed
next
  case (3 n order k save b)
  then show ?case by simp
next
  case (4 n order cands rest k save b)
  show ?case
  proof (intro allI impI)
    fix b' assume run: "guess n order (cands # rest) k save b = Some (Inr (True, b'))"
    let ?b = "b[k := set_value cands (b ! k)]"
    from run obtain r1 where s: "solve n order ?b = Some r1"
      by (cases "solve n order ?b") simp_all
    show "board_is_solved b'"
    proof (cases r1)
      case (Inl e)
      with run s show ?thesis by simp
    next
      case (Inr p)
      obtain res1 b1 where p: "p = (res1, b1)" by (cases p)
      show ?thesis
      proof (cases res1)
        case True
        with run s Inr p have "b' = b1" by simp
        with "4.IH"(1) s Inr p True show ?thesis by simp
      next
        case False
        with run s Inr p have "guess n order rest k save (set_tiles b1 save) = Some (Inr (True, b'))"
          by simp
        moreover from False have "res1 = False" by simp
        note "4.IH"(2) [OF s Inr p [symmetric] this]
        ultimately show ?thesis by simp
      qed
    qed
  qed
qed

subsection \<open>Complete boards and inconsistent boards\<close>

lemma board_is_solved_iff:
  assumes "length b = 81"
  shows "board_is_solved b \<longleftrightarrow> UNKNOWN \<notin> set (as_list b)"
proof
  assume s: "board_is_solved b"
  show "UNKNOWN \<notin> set (as_list b)"
  proof
    assume "UNKNOWN \<in> set (as_list b)"
    then obtain i where i: "i < length b" "tile_value (b ! i) = UNKNOWN"
      by (auto simp: as_list_def in_set_conv_nth)
    from groups_cover [of i] i(1) assms obtain g where g: "g \<in> set groups" "i \<in> set g" by auto
    from s g(1) have "group_is_complete (group_tiles b g)"
      by (simp add: board_is_solved_def list_all_iff)
    with g(2) have "tile_value (b ! i) \<noteq> UNKNOWN"
      by (simp add: group_is_complete_def group_tiles_def list_all_iff)
    with i(2) show False by simp
  qed
next
  assume u: "UNKNOWN \<notin> set (as_list b)"
  show "board_is_solved b"
    unfolding board_is_solved_def list_all_iff
  proof
    fix g assume g: "g \<in> set groups"
    show "group_is_complete (group_tiles b g)"
      unfolding group_is_complete_def group_tiles_def list_all_iff
    proof
      fix t assume "t \<in> set (map ((!) b) g)"
      then obtain i where i: "i \<in> set g" "t = b ! i" by auto
      have "i < length b" using groups_in_range [OF g i(1)] assms by simp
      then have "tile_value (b ! i) \<in> set (as_list b)" by (simp add: as_list_def)
      with u i(2) show "tile_value t \<noteq> UNKNOWN" by auto
    qed
  qed
qed

lemma best_tile_unknown:
  assumes "best_tile b = Some k"
  shows "k < length b \<and> tile_value (b ! k) = UNKNOWN"
  using scan_tiles_inv [OF scan_inv_Nil, of b] assms
  by (auto simp add: best_tile_def scan_inv_def)

lemma not_consistent_group:
  "g \<in> set groups \<Longrightarrow> \<not> group_is_consistent (group_tiles b g) \<Longrightarrow> \<not> board_is_consistent b"
  by (auto simp: board_is_consistent_def list_all_iff)

lemma eliminate_tiles_assigned:
  "\<forall>t\<in>set ts. tile_value t \<noteq> UNKNOWN \<Longrightarrow> eliminate_tiles used ts c = (c, ts)"
  by (induction ts) simp_all

lemma naked_single_assigned:
  assumes len: "length b = 81" and full: "UNKNOWN \<notin> set (as_list b)"
  shows "naked_single b = (False, b)"
proof -
  obtain ch b1 where n: "naked_single b = (ch, b1)" by (cases "naked_single b")
  have "\<not> ch"
  proof
    assume ch
    with n have "naked_single b = (True, b1)" by simp
    then have run: "groups_loop naked_single_constrain groups b False = (True, b1)"
      by (simp add: naked_single_def naked_single_loop_eq)
    have "\<And>gs c ch b'. groups_loop naked_single_constrain gs b c = (ch, b') \<Longrightarrow>
        set gs \<subseteq> set groups \<Longrightarrow> ch = c \<and> b' = b"
    proof -
      fix gs c ch b'
      show "groups_loop naked_single_constrain gs b c = (ch, b') \<Longrightarrow>
        set gs \<subseteq> set groups \<Longrightarrow> ch = c \<and> b' = b"
      proof (induction gs arbitrary: c)
        case Nil
        then show ?case by simp
      next
        case (Cons g gs)
        from Cons.prems(2) have g: "g \<in> set groups" and gs: "set gs \<subseteq> set groups" by simp_all
        have range: "\<forall>i\<in>set g. i < length b" using groups_in_range [OF g] len by simp
        have "\<forall>t\<in>set (group_tiles b g). tile_value t \<noteq> UNKNOWN"
        proof
          fix t assume "t \<in> set (group_tiles b g)"
          then obtain i where i: "i \<in> set g" "t = b ! i" by (auto simp: group_tiles_def)
          with range have "tile_value (b ! i) \<in> set (as_list b)" by (simp add: as_list_def)
          with full i(2) show "tile_value t \<noteq> UNKNOWN" by auto
        qed
        then have "naked_single_constrain (group_tiles b g) = (False, group_tiles b g)"
          by (simp add: naked_single_constrain_def Let_def eliminate_tiles_assigned)
        moreover have "write_group g (group_tiles b g) b = b"
          using groups_distinct [OF g] range by (rule write_group_same)
        ultimately have "groups_loop naked_single_constrain gs b c = (ch, b')"
          using Cons.prems(1) by simp
        from Cons.IH [OF this gs] show ?case .
      qed
    qed
    from this [OF run] show False by simp
  qed
  with n have "naked_single b = (False, b1)" by simp
  with naked_single_unchanged [OF len this] show ?thesis by simp
qed

lemma propagate_assigned:
  assumes len: "length b = 81" and full: "UNKNOWN \<notin> set (as_list b)"
  shows "propagate order b = Some b"
  using board_is_solved_iff [OF len] full
  by (subst propagate.simps) (simp add: naked_single_assigned [OF len full])

lemma solve_assigned:
  assumes len: "length b = 81" and full: "UNKNOWN \<notin> set (as_list b)"
  shows "solve (Suc n) order b = Some (Inr (True, b))"
  using board_is_solved_iff [OF len] full
  by (simp add: propagate_assigned [OF len full])

lemma propagate_inconsistent_entry:
  assumes ok: "board_ok b" and inc: "\<not> board_is_consistent b"
  shows "propagate order b = Some (snd (naked_single b))"
    and "\<not> board_is_consistent (snd (naked_single b))"
proof -
  obtain ch b1 where n: "naked_single b = (ch, b1)" by (cases "naked_single b")
  from ok have len: "length b = 81" by (simp add: board_ok_def)
  have "list_all2 narrows b b1" using closed_rel_narrows len n by (rule naked_single_rel)
  with ok inc have inc1: "\<not> board_is_consistent b1" by (blast dest: board_consistent_before)
  then show "\<not> board_is_consistent (snd (naked_single b))" by (simp add: n)
  from inc1 show "propagate order b = Some (snd (naked_single b))"
    by (subst propagate.simps) (simp add: n)
qed

subsection \<open>The search returns within the depth bound\<close>

lemma narrows_unknown_count:
  assumes "list_all2 narrows b b'" and "list_all tile_ok b"
  shows "unknown_count b' \<le> unknown_count b"
  using assms unfolding unknown_count_def
proof (induction rule: list_all2_induct)
  case Nil
  then show ?case by simp
next
  case (Cons t ts t' ts')
  from Cons.prems have ok: "tile_ok t" and oks: "list_all tile_ok ts" by simp_all
  from Cons.hyps(1) ok have "tile_value t \<noteq> UNKNOWN \<Longrightarrow> tile_value t' \<noteq> UNKNOWN"
    by (auto simp: narrows_def)
  with Cons.IH [OF oks] show ?case by auto
qed

lemma unknown_count_le: "unknown_count b \<le> length b"
  by (simp add: unknown_count_def)

lemma unknown_count_new_board: "unknown_count (new_board (as_list b)) = unknown_count b"
proof -
  have eq: "\<And>t. (tile_value (new_tile (tile_value t)) = UNKNOWN) = (tile_value t = UNKNOWN)"
    by (simp add: new_tile_def)
  show ?thesis
    by (simp add: unknown_count_def new_board_def as_list_def filter_map comp_def eq)
qed

lemma board_ok_new_board_as_list:
  assumes "board_ok b"
  shows "board_ok (new_board (as_list b))"
proof (rule new_board_ok)
  show "length (as_list b) = 81" using assms by (simp add: board_ok_def as_list_def)
  show "set (as_list b) \<subseteq> insert UNKNOWN (set CHOICES)"
  proof
    fix v assume "v \<in> set (as_list b)"
    then obtain t where t: "t \<in> set b" "v = tile_value t" by (auto simp: as_list_def)
    with assms have "tile_ok t" by (simp add: board_ok_def list_all_iff)
    then show "v \<in> insert UNKNOWN (set CHOICES)" using t(2) by (auto simp: tile_ok_def)
  qed
qed

lemma guess_step_board:
  assumes ok: "board_ok b" and k: "k < length b" "tile_value (b ! k) = UNKNOWN"
    and c: "c \<in> set CHOICES"
  shows "board_ok (b[k := set_value c (b ! k)])"
    and "Suc (unknown_count (b[k := set_value c (b ! k)])) = unknown_count b"
proof -
  have c': "c \<noteq> UNKNOWN" using c UNKNOWN_not_choice by auto
  have "tile_ok (set_value c (b ! k))" using c by (simp add: tile_ok_def set_value_def)
  with ok show "board_ok (b[k := set_value c (b ! k)])"
    by (auto simp: board_ok_def list_all_iff dest: set_update_subset_insert [THEN subsetD])
  have split: "b = take k b @ b ! k # drop (Suc k) b" using k(1) by (rule id_take_nth_drop)
  have upd: "b[k := set_value c (b ! k)] = take k b @ set_value c (b ! k) # drop (Suc k) b"
    using k(1) by (rule upd_conv_take_nth_drop)
  have "unknown_count b =
      unknown_count (take k b) + (if tile_value (b ! k) = UNKNOWN then 1 else 0) +
      unknown_count (drop (Suc k) b)"
    by (subst split) (simp add: unknown_count_def)
  moreover have "unknown_count (b[k := set_value c (b ! k)]) =
      unknown_count (take k b) + unknown_count (drop (Suc k) b)"
    unfolding upd using c' by (simp add: unknown_count_def set_value_def)
  ultimately show "Suc (unknown_count (b[k := set_value c (b ! k)])) = unknown_count b"
    using k(2) by simp
qed

lemma guess_returns:
  assumes solve: "\<And>b. board_ok b \<Longrightarrow> unknown_count b < n \<Longrightarrow>
            \<exists>r b'. solve n order b = Some (Inr (r, b'))"
    and save: "board_ok (new_board save)" "unknown_count (new_board save) \<le> n"
            "length save = 81" "tile_value (new_board save ! k) = UNKNOWN"
    and cs: "set cs \<subseteq> set CHOICES"
  shows "board_ok b \<Longrightarrow> unknown_count b \<le> n \<Longrightarrow> tile_value (b ! k) = UNKNOWN \<Longrightarrow> k < 81 \<Longrightarrow>
         \<exists>r b'. guess n order cs k save b = Some (Inr (r, b'))"
  using cs
proof (induction cs arbitrary: b)
  case Nil
  then show ?case by auto
next
  case (Cons c cs)
  let ?b = "b[k := set_value c (b ! k)]"
  from Cons.prems have c: "c \<in> set CHOICES" and rest: "set cs \<subseteq> set CHOICES" by simp_all
  from Cons.prems(1) have len: "length b = 81" by (simp add: board_ok_def)
  with Cons.prems(4) have k: "k < length b" by simp
  have ok': "board_ok ?b" using Cons.prems(1) k Cons.prems(3) c by (rule guess_step_board)
  have "Suc (unknown_count ?b) = unknown_count b"
    using Cons.prems(1) k Cons.prems(3) c by (rule guess_step_board)
  with Cons.prems(2) have "unknown_count ?b < n" by simp
  from solve [OF ok' this] obtain r b' where s: "solve n order ?b = Some (Inr (r, b'))" by blast
  show ?case
  proof (cases r)
    case True
    with s show ?thesis by auto
  next
    case False
    have "length ?b = 81" using len by simp
    with solve_safe [of ?b n order] s have "length b' = 81" by auto
    then have restored: "set_tiles b' save = new_board save" using save(3) by (simp add: set_tiles_new)
    from Cons.IH [OF save(1) save(2) save(4) Cons.prems(4) rest]
    obtain r2 b2 where "guess n order cs k save (new_board save) = Some (Inr (r2, b2))" by blast
    with s False restored show ?thesis by simp
  qed
qed

lemma solve_returns:
  "board_ok b \<Longrightarrow> unknown_count b < n \<Longrightarrow> \<exists>r b'. solve n order b = Some (Inr (r, b'))"
proof (induction n arbitrary: b)
  case 0
  then show ?case by simp
next
  case (Suc n)
  from Suc.prems(1) have len: "length b = 81" by (simp add: board_ok_def)
  from propagate_returns [OF len, of order] obtain b1 where
    p: "propagate order b = Some b1" and l1: "length b1 = 81" and rel: "list_all2 progress b b1"
    by blast
  have nar: "list_all2 narrows b b1" using rel by (rule progress_narrows)
  have ok1: "board_ok b1" using Suc.prems(1) nar by (rule board_ok_after)
  have "unknown_count b1 \<le> unknown_count b"
    using nar Suc.prems(1) by (intro narrows_unknown_count) (simp_all add: board_ok_def)
  with Suc.prems(2) have u1: "unknown_count b1 \<le> n" by simp
  show ?case
  proof (cases "board_is_solved b1 \<or> \<not> board_is_consistent b1")
    case True
    then show ?thesis by (auto simp add: p)
  next
    case False
    then have cons: "board_is_consistent b1" and uns: "\<not> board_is_solved b1" by simp_all
    from best_tile_exists [OF l1 cons uns] obtain k where best: "best_tile b1 = Some k" ..
    from best_tile_unknown [OF best] have k: "k < length b1" "tile_value (b1 ! k) = UNKNOWN"
      by simp_all
    have "tile_ok (b1 ! k)" using ok1 k(1) by (simp add: board_ok_def list_all_length)
    then have cs: "set (enumerate_set order (candidates (b1 ! k))) \<subseteq> set CHOICES"
      by (auto simp: enumerate_set_def tile_ok_def)
    have s1: "board_ok (new_board (as_list b1))" using ok1 by (rule board_ok_new_board_as_list)
    have s2: "unknown_count (new_board (as_list b1)) \<le> n"
      using u1 by (simp add: unknown_count_new_board)
    have s3: "length (as_list b1) = 81" using l1 by (simp add: as_list_def)
    have s4: "tile_value (new_board (as_list b1) ! k) = UNKNOWN"
      using k by (simp add: new_board_def as_list_def new_tile_def)
    have "\<exists>r b'. guess n order (enumerate_set order (candidates (b1 ! k))) k (as_list b1) b1 =
        Some (Inr (r, b'))"
      using Suc.IH s1 s2 s3 s4 cs ok1 u1 k(2) k(1) [unfolded l1]
      by (rule guess_returns)
    with cons uns best show ?thesis by (simp add: p)
  qed
qed

subsection \<open>The boards of the scenarios\<close>

lemma row_0_group: "[0, 1, 2, 3, 4, 5, 6, 7, 8] \<in> set groups"
  by (simp add: groups_eval)

lemma scenario_c_ok: "board_ok scenario_c"
  unfolding scenario_c_def by (rule new_board_ok) (simp_all add: UNKNOWN_def CHOICES_def)

lemma scenario_c_inconsistent: "\<not> board_is_consistent scenario_c"
  by (rule not_consistent_group [OF row_0_group])
     (simp add: scenario_c_def new_board_def group_tiles_def group_is_consistent_def new_tile_def
        UNKNOWN_def)

lemma scenario_c_unsolved: "UNKNOWN \<in> set (as_list scenario_c)"
  by (simp add: scenario_c_def as_list_new_board UNKNOWN_def)

lemma naked_single_pair: "naked_single b = (fst (naked_single b), snd (naked_single b))"
  by simp

lemma naked_single_keeps_unsolved:
  assumes "length b = 81" and "UNKNOWN \<in> set (as_list b)"
  shows "\<not> board_is_solved (snd (naked_single b))"
proof -
  have "as_list (snd (naked_single b)) = as_list b"
    using assms(1) naked_single_pair by (rule naked_single_values)
  moreover have "length (snd (naked_single b)) = 81"
    using naked_single_length [OF naked_single_pair, of b] assms(1) by simp
  ultimately show ?thesis using assms(2) by (simp add: board_is_solved_iff)
qed

lemma scenario_c_length: "length scenario_c = 81"
  using scenario_c_ok by (simp add: board_ok_def)

lemma stalling_puzzle_length: "length stalling_puzzle = 81"
  by (simp add: stalling_puzzle_def new_board_def)

lemma stalling_puzzle_ok: "board_ok stalling_puzzle"
  unfolding stalling_puzzle_def by (rule new_board_ok) (simp_all add: UNKNOWN_def CHOICES_def)

lemma stalling_puzzle_consistent: "board_is_consistent stalling_puzzle"
  unfolding stalling_puzzle_def by code_simp

lemma stalling_puzzle_unsolved: "\<not> board_is_solved stalling_puzzle"
  unfolding board_is_solved_iff [OF stalling_puzzle_length]
  by (simp add: stalling_puzzle_def as_list_new_board UNKNOWN_def)

lemma guess_from_snapshot:
  assumes save: "length save = 81"
  shows "guess n order cs k save (new_board save) = restored_search n order cs k save"
proof (induction cs)
  case Nil
  show ?case by simp
next
  case (Cons c cs)
  let ?b = "(new_board save)[k := set_value c (new_board save ! k)]"
  have len: "length ?b = 81" using save by (simp add: new_board_def)
  show ?case
  proof (cases "solve n order ?b")
    case None
    then show ?thesis by simp
  next
    case (Some r)
    from solve_safe [of ?b n order] len Some obtain res b' where
      r: "r = Inr (res, b')" and l': "length b' = 81" by auto
    show ?thesis
    proof (cases res)
      case True
      with Some r show ?thesis by simp
    next
      case False
      have "set_tiles b' save = new_board save" using l' save by (simp add: set_tiles_new)
      with Some r False Cons.IH show ?thesis by simp
    qed
  qed
qed

lemma restored_search_all_fail:
  "\<forall>c\<in>set cs. \<exists>b'. solve n order ((new_board save)[k := set_value c (new_board save ! k)]) =
       Some (Inr (False, b')) \<Longrightarrow>
   restored_search n order cs k save = Some (Inr (False, new_board save))"
  by (induction cs) auto

lemma fails_at_entry:
  assumes "board_ok b" and "\<not> board_is_consistent b" and "UNKNOWN \<in> set (as_list b)"
  shows "solve (Suc n) order b = Some (Inr (False, snd (naked_single b)))"
proof -
  from assms(1) have len: "length b = 81" by (simp add: board_ok_def)
  have p: "propagate order b = Some (snd (naked_single b))"
    and inc: "\<not> board_is_consistent (snd (naked_single b))"
    using propagate_inconsistent_entry [OF assms(1,2)] by simp_all
  have uns: "\<not> board_is_solved (snd (naked_single b))"
    using len assms(3) by (rule naked_single_keeps_unsolved)
  from inc uns show ?thesis by (simp add: p)
qed

lemma fails_at_entry_1:
  assumes "board_ok b" and "\<not> board_is_consistent b" and "UNKNOWN \<in> set (as_list b)"
  shows "solve 1 order b = Some (Inr (False, snd (naked_single b)))"
  using fails_at_entry [OF assms, of 0 order] by (simp only: One_nat_def)

lemma five_five_six_fails:
  "solve 1 order five_five_six = Some (Inr (False, snd (naked_single five_five_six)))"
proof (rule fails_at_entry_1)
  show "board_ok five_five_six"
    unfolding five_five_six_def by (rule new_board_ok) (simp_all add: UNKNOWN_def CHOICES_def)
  show "\<not> board_is_consistent five_five_six"
    by (rule not_consistent_group [OF row_0_group])
       (simp add: five_five_six_def new_board_def group_tiles_def group_is_consistent_def
          new_tile_def UNKNOWN_def)
  show "UNKNOWN \<in> set (as_list five_five_six)"
    by (simp add: five_five_six_def as_list_new_board UNKNOWN_def)
qed

lemma five_six_six_fails:
  "solve 1 order five_six_six = Some (Inr (False, snd (naked_single five_six_six)))"
proof (rule fails_at_entry_1)
  show "board_ok five_six_six"
    unfolding five_six_six_def by (rule new_board_ok) (simp_all add: UNKNOWN_def CHOICES_def)
  show "\<not> board_is_consistent five_six_six"
    by (rule not_consistent_group [OF row_0_group])
       (simp add: five_six_six_def new_board_def group_tiles_def group_is_consistent_def
          new_tile_def UNKNOWN_def)
  show "UNKNOWN \<in> set (as_list five_six_six)"
    by (simp add: five_six_six_def as_list_new_board UNKNOWN_def)
qed

lemma five_six_length: "length five_six = 81"
  by (simp add: five_six_def new_board_def)

lemma five_six_snapshot: "new_board (as_list five_six) = five_six"
  by (simp add: five_six_def as_list_new_board)

lemma five_six_guess_5: "five_six[1 := set_value (CHR ''5'') (five_six ! 1)] = five_five_six"
  by (simp add: five_six_def five_five_six_def new_board_def new_tile_def set_value_def UNKNOWN_def)

lemma five_six_guess_6: "five_six[1 := set_value (CHR ''6'') (five_six ! 1)] = five_six_six"
  by (simp add: five_six_def five_six_six_def new_board_def new_tile_def set_value_def UNKNOWN_def)

lemma solve_1_true:
  assumes "solve 1 order b = Some (Inr (True, b'))"
  shows "propagate order b = Some b'"
proof (cases "propagate order b")
  case None
  with assms show ?thesis by simp
next
  case (Some b1)
  have g0: "\<And>cs k save bb. guess 0 order cs k save bb \<noteq> Some (Inr (True, b'))"
  proof -
    fix cs k save bb show "guess 0 order cs k save bb \<noteq> Some (Inr (True, b'))"
      by (cases cs) simp_all
  qed
  show ?thesis
  proof (cases "board_is_solved b1")
    case True
    with assms Some show ?thesis by simp
  next
    case False
    with assms Some g0 show ?thesis
      by (auto split: if_splits option.splits)
  qed
qed

lemma wrong_solution_solved: "board_is_solved wrong_solution"
proof -
  have "length wrong_solution = 81" by (simp add: wrong_solution_def new_board_def)
  then show ?thesis
    by (simp add: board_is_solved_iff) (simp add: wrong_solution_def as_list_new_board UNKNOWN_def)
qed

lemma wrong_solution_inconsistent: "\<not> board_is_consistent wrong_solution"
  unfolding wrong_solution_def by code_simp

lemma scenario_d_consistent: "board_is_consistent scenario_d"
  unfolding scenario_d_def by code_simp

lemma scenario_d_stalls: "solve 1 ''987654321'' scenario_d = None"
  by code_simp

lemma scenario_d_wrong: "solve 2 ''987654321'' scenario_d = Some (Inr (True, wrong_solution))"
  by code_simp

lemma wrong_guess_solved: "solve 1 ''987654321'' wrong_guess = Some (Inr (True, wrong_solution))"
  by code_simp

section \<open>Termination of propagate\<close>

text \<open>
  Claim C6. \<^verbatim>\<open>propagate\<close> returns on every board of 81 tiles. The weight of a board
  (its number of candidates, plus one for each tile whose candidates are not exactly its
  value) never grows under the two tactics, a tactic that reports a change has made it
  strictly smaller, a tactic that reports no change has left the board as it was, and an
  iteration in which neither tactic reports a change ends the loop.
\<close>

theorem propagate_terminates:
  assumes len: "length b = 81"
  shows "(\<exists>b'. propagate order b = Some b') \<and>
         (\<forall>ch b1 ch2 b2.
            naked_single b = (ch, b1) \<longrightarrow> hidden_single order b1 = (ch2, b2) \<longrightarrow>
              board_weight b1 \<le> board_weight b \<and> board_weight b2 \<le> board_weight b1 \<and>
              (ch \<longrightarrow> board_weight b1 < board_weight b) \<and>
              (ch2 \<longrightarrow> board_weight b2 < board_weight b1) \<and>
              (\<not> ch \<longrightarrow> b1 = b) \<and> (\<not> ch2 \<longrightarrow> b2 = b1) \<and>
              (\<not> ch \<and> \<not> ch2 \<longrightarrow> propagate order b = Some b))"
proof (intro conjI allI impI)
  show "\<exists>b'. propagate order b = Some b'"
    using propagate_returns [OF len, of order] by blast
next
  fix ch b1 ch2 b2
  assume n: "naked_single b = (ch, b1)" and h: "hidden_single order b1 = (ch2, b2)"
  have l1: "length b1 = 81" using naked_single_length [OF n] len by simp
  show "board_weight b1 \<le> board_weight b"
    using naked_single_rel [OF closed_rel_lighter len n] by (rule lighter_weight_le)
  show "board_weight b2 \<le> board_weight b1"
    using hidden_single_rel [OF closed_rel_lighter l1 h] by (rule lighter_weight_le)
  show "board_weight b1 < board_weight b" if ch
    using naked_single_changed [OF len] n that by simp
  show "board_weight b2 < board_weight b1" if ch2
    using hidden_single_changed [OF l1] h that by simp
  show "b1 = b" if "\<not> ch"
    using naked_single_unchanged [OF len] n that by simp
  show "b2 = b1" if "\<not> ch2"
    using hidden_single_unchanged [OF l1] h that by simp
  show "propagate order b = Some b" if "\<not> ch \<and> \<not> ch2"
  proof -
    from that n naked_single_unchanged [OF len] have n': "naked_single b = (False, b)" by simp
    with that n h hidden_single_unchanged [OF len] have h': "hidden_single order b = (False, b)"
      by simp
    show ?thesis by (subst propagate.simps) (simp add: n' h')
  qed
qed

theorem propagate_terminates_witness:
  "\<exists>b'. propagate ''123456789'' stalling_puzzle = Some b'"
proof -
  have "length stalling_puzzle = 81" by (simp add: stalling_puzzle_def new_board_def)
  from propagate_terminates [OF this, of "''123456789''"] show ?thesis by blast
qed

section \<open>Inconsistency is permanent\<close>

text \<open>
  Claim C9. On a board of 81 tiles that satisfy the tile invariant (candidates among
  the nine digits, an assigned tile has its value as its only candidate), an
  inconsistent board is still inconsistent after \<^verbatim>\<open>naked_single\<close>, after
  \<^verbatim>\<open>hidden_single\<close>, when \<^verbatim>\<open>propagate\<close> returns and when \<^verbatim>\<open>solve\<close> returns; both
  \<^verbatim>\<open>propagate\<close> and \<^verbatim>\<open>solve\<close> do return.
\<close>

theorem inconsistent_stays_inconsistent:
  assumes ok: "board_ok b" and inc: "\<not> board_is_consistent b"
  shows "\<not> board_is_consistent (snd (naked_single b)) \<and>
         \<not> board_is_consistent (snd (hidden_single order b)) \<and>
         (\<exists>b'. propagate order b = Some b' \<and> \<not> board_is_consistent b') \<and>
         (\<exists>r b'. solve (Suc n) order b = Some (Inr (r, b')) \<and> \<not> board_is_consistent b')"
proof (intro conjI)
  from ok have len: "length b = 81" by (simp add: board_ok_def)
  show "\<not> board_is_consistent (snd (naked_single b))"
    using ok inc by (rule propagate_inconsistent_entry)
  obtain ch b1 where h: "hidden_single order b = (ch, b1)" by (cases "hidden_single order b")
  have "list_all2 narrows b b1" using closed_rel_narrows len h by (rule hidden_single_rel)
  with ok inc have "\<not> board_is_consistent b1" by (blast dest: board_consistent_before)
  then show "\<not> board_is_consistent (snd (hidden_single order b))" by (simp add: h)
  let ?b1 = "snd (naked_single b)"
  have p: "propagate order b = Some ?b1" and inc1: "\<not> board_is_consistent ?b1"
    using propagate_inconsistent_entry [OF ok inc] by simp_all
  then show "\<exists>b'. propagate order b = Some b' \<and> \<not> board_is_consistent b'" by blast
  have "solve (Suc n) order b = Some (Inr (board_is_solved ?b1, ?b1))"
    using inc1 by (simp add: p)
  with inc1 show "\<exists>r b'. solve (Suc n) order b = Some (Inr (r, b')) \<and> \<not> board_is_consistent b'"
    by blast
qed

theorem inconsistent_stays_inconsistent_witness:
  "\<not> board_is_consistent (snd (naked_single scenario_c)) \<and>
   \<not> board_is_consistent (snd (hidden_single ''123456789'' scenario_c)) \<and>
   (\<exists>b'. propagate ''123456789'' scenario_c = Some b' \<and> \<not> board_is_consistent b') \<and>
   (\<exists>r b'. solve 1 ''123456789'' scenario_c = Some (Inr (r, b')) \<and> \<not> board_is_consistent b')"
  using inconsistent_stays_inconsistent [OF scenario_c_ok scenario_c_inconsistent, of "''123456789''" 0]
  by simp

section \<open>The guessing phase finds a tile\<close>

text \<open>
  Claim C10. On a board of 81 tiles that is consistent and not solved the scan
  finds a tile, and that tile is UNKNOWN; \<^verbatim>\<open>solve\<close> never raises the
  \<^verbatim>\<open>AttributeError\<close> of a missing \<^verbatim>\<open>best_tile\<close>, and on a board whose tiles satisfy
  the tile invariant it returns a boolean within a recursion depth of 82 calls.
\<close>

theorem best_tile_is_found:
  assumes len: "length b = 81"
  shows "(board_is_consistent b \<and> \<not> board_is_solved b \<longrightarrow>
            (\<exists>k. best_tile b = Some k \<and> k < length b \<and> tile_value (b ! k) = UNKNOWN)) \<and>
         solve n order b \<noteq> Some (Inl AttributeError) \<and>
         (board_ok b \<longrightarrow> (\<exists>r b'. solve 82 order b = Some (Inr (r, b'))))"
proof (intro conjI impI)
  assume "board_is_consistent b \<and> \<not> board_is_solved b"
  with best_tile_exists [OF len] obtain k where k: "best_tile b = Some k" by blast
  from best_tile_unknown [OF k] k
  show "\<exists>k. best_tile b = Some k \<and> k < length b \<and> tile_value (b ! k) = UNKNOWN" by blast
next
  show "solve n order b \<noteq> Some (Inl AttributeError)"
    using solve_safe [of b n order] len by auto
next
  assume ok: "board_ok b"
  have "unknown_count b < 82" using unknown_count_le [of b] len by simp
  with ok show "\<exists>r b'. solve 82 order b = Some (Inr (r, b'))" by (rule solve_returns)
qed

theorem best_tile_is_found_witness:
  "(\<exists>k. best_tile stalling_puzzle = Some k \<and> k < length stalling_puzzle \<and>
        tile_value (stalling_puzzle ! k) = UNKNOWN) \<and>
   solve 3 ''123456789'' stalling_puzzle \<noteq> Some (Inl AttributeError) \<and>
   (\<exists>r b'. solve 82 ''123456789'' stalling_puzzle = Some (Inr (r, b')))"
  using best_tile_is_found [OF stalling_puzzle_length, of 3 "''123456789''"]
    stalling_puzzle_consistent stalling_puzzle_unsolved stalling_puzzle_ok
  by simp

section \<open>An inconsistent board ends the search\<close>

text \<open>
  When the board that \<^verbatim>\<open>propagate\<close> leaves is not consistent, \<^verbatim>\<open>solve\<close> returns at
  once with that board, without a guess and without an exception; what it returns is
  the result of \<^verbatim>\<open>is_solved()\<close>, which is tested first.
\<close>

lemma solve_after_inconsistent:
  assumes "propagate order b = Some b1" and "\<not> board_is_consistent b1"
  shows "solve (Suc n) order b = Some (Inr (board_is_solved b1, b1))"
  using assms by simp

text \<open>
  Claim C2 fails on the code. The grid \<open>wrong_guess\<close> (Scenario D with the wrong value 7
  in the cell of the guess) has no repeated digit among its givens; the board that
  \<^verbatim>\<open>propagate\<close> leaves is complete and not consistent, and \<^verbatim>\<open>solve\<close> returns true on
  it, where the claim says false.
\<close>

theorem solve_true_after_inconsistent_propagation:
  "propagate ''987654321'' wrong_guess = Some wrong_solution \<and>
   \<not> board_is_consistent wrong_solution \<and>
   solve 1 ''987654321'' wrong_guess = Some (Inr (True, wrong_solution))"
  using solve_1_true [OF wrong_guess_solved] wrong_solution_inconsistent wrong_guess_solved
  by blast

section \<open>What a true result guarantees\<close>

text \<open>
  Whenever \<^verbatim>\<open>solve\<close> returns true, the board on return satisfies \<^verbatim>\<open>is_solved()\<close>.
\<close>

lemma solve_true_is_solved:
  assumes "solve n order b = Some (Inr (True, b'))"
  shows "board_is_solved b'"
  using solve_true [of n order b] assms by blast

text \<open>
  Claim C1 fails on the code. On the puzzle of Scenario D (consistent givens, exactly
  one solution, propagation stalls and one call of \<^verbatim>\<open>solve\<close> does not suffice), with
  the candidate 7 of the chosen tile enumerated before 2, \<^verbatim>\<open>solve\<close> returns true and the
  board on return is solved and not consistent.
\<close>

theorem solve_true_on_inconsistent_board:
  "board_is_consistent scenario_d \<and>
   solve 1 ''987654321'' scenario_d = None \<and>
   solve 2 ''987654321'' scenario_d = Some (Inr (True, wrong_solution)) \<and>
   board_is_solved wrong_solution \<and> \<not> board_is_consistent wrong_solution"
  using scenario_d_consistent scenario_d_stalls scenario_d_wrong wrong_solution_solved
    wrong_solution_inconsistent
  by blast

section \<open>Restoring the snapshot between guesses\<close>

text \<open>
  Claim C8. When the recursive call for a candidate returns false, the rest of the
  guess loop is the search in which every further candidate is tried on the board
  restored from the snapshot, whatever the failed calls left behind: the values of that
  board are exactly the snapshot, and when every further candidate fails too, the loop
  ends on that board.
\<close>

theorem guess_restores_snapshot:
  assumes "length b = 81" and "length save = 81"
    and "solve n order (b[k := set_value cands (b ! k)]) = Some (Inr (False, b'))"
  shows "guess n order (cands # rest) k save b = restored_search n order rest k save \<and>
         as_list (new_board save) = save \<and>
         ((\<forall>c\<in>set rest. \<exists>b''.
              solve n order ((new_board save)[k := set_value c (new_board save ! k)]) =
                Some (Inr (False, b''))) \<longrightarrow>
            guess n order (cands # rest) k save b = Some (Inr (False, new_board save)))"
proof -
  have "length (b[k := set_value cands (b ! k)]) = 81" using assms(1) by simp
  with solve_safe [of "b[k := set_value cands (b ! k)]" n order] assms(3)
  have "length b' = 81" by auto
  with assms(2) have "set_tiles b' save = new_board save" by (simp add: set_tiles_new)
  with assms(3) have "guess n order (cands # rest) k save b =
      guess n order rest k save (new_board save)" by simp
  then have eq: "guess n order (cands # rest) k save b = restored_search n order rest k save"
    by (simp add: guess_from_snapshot [OF assms(2)])
  then show ?thesis
    using restored_search_all_fail [of rest n order save k] by (simp add: as_list_new_board)
qed

theorem guess_restores_snapshot_witness:
  "guess 1 ''987654321'' ''56'' 1 (as_list five_six) five_six = Some (Inr (False, five_six)) \<and>
   restored_search 1 ''987654321'' ''6'' 1 (as_list five_six) = Some (Inr (False, five_six)) \<and>
   as_list five_six = ''5.6..............................................................................''"
proof -
  have save: "length (as_list five_six) = 81" using five_six_length by (simp add: as_list_def)
  have first: "solve 1 ''987654321'' (five_six[1 := set_value (CHR ''5'') (five_six ! 1)]) =
      Some (Inr (False, snd (naked_single five_five_six)))"
    unfolding five_six_guess_5 by (rule five_five_six_fails)
  have "\<exists>b''. solve 1 ''987654321''
        ((new_board (as_list five_six))[1 := set_value (CHR ''6'') (new_board (as_list five_six) ! 1)]) =
      Some (Inr (False, b''))"
    unfolding five_six_snapshot five_six_guess_6 using five_six_six_fails by blast
  then have second: "\<forall>c\<in>set ''6''. \<exists>b''.
      solve 1 ''987654321''
        ((new_board (as_list five_six))[1 := set_value c (new_board (as_list five_six) ! 1)]) =
      Some (Inr (False, b''))"
    by (simp only: list.set ball_simps)
  from guess_restores_snapshot [OF five_six_length save first, of "''6''"] second
  have eq: "guess 1 ''987654321'' ''56'' 1 (as_list five_six) five_six =
          restored_search 1 ''987654321'' ''6'' 1 (as_list five_six)"
    and "guess 1 ''987654321'' ''56'' 1 (as_list five_six) five_six =
          Some (Inr (False, new_board (as_list five_six)))"
    by blast+
  then have res: "guess 1 ''987654321'' ''56'' 1 (as_list five_six) five_six =
          Some (Inr (False, five_six))"
    by (simp only: five_six_snapshot)
  have "restored_search 1 ''987654321'' ''6'' 1 (as_list five_six) = Some (Inr (False, five_six))"
    using eq [symmetric] res by (rule trans)
  moreover have "as_list five_six =
      ''5.6..............................................................................''"
    by (simp add: five_six_def as_list_new_board)
  ultimately show ?thesis using res by blast
qed

end
